theory Spec2Isabelle
  imports
    Main
    "HOL-Library.Char_ord"
    "HOL-Library.List_Lexorder"
    "HOL-Library.AList"
    "HOL-Library.Multiset"
begin

section \<open>Go strings as byte lists\<close>

text \<open>
  A Go \<^verbatim>\<open>string\<close> is a sequence of bytes; it is modelled as a \<^typ>\<open>string\<close>
  (a list of 8-bit characters).  Comparison of Go strings is bytewise and lexicographic,
  which is the order \<^theory_text>\<open>Char_ord\<close> and \<^theory_text>\<open>List_Lexorder\<close> put on \<^typ>\<open>string\<close>.
  The functions of package \<^verbatim>\<open>strings\<close> that \<^verbatim>\<open>leak.go\<close> calls are written out below.
\<close>

text \<open>\<^verbatim>\<open>strings.HasPrefix(s, prefix)\<close>.\<close>

fun HasPrefix :: "string \<Rightarrow> string \<Rightarrow> bool" where
  "HasPrefix s [] = True"
| "HasPrefix [] (p # ps) = False"
| "HasPrefix (c # cs) (p # ps) = (c = p \<and> HasPrefix cs ps)"

text \<open>\<^verbatim>\<open>strings.Index(s, substr)\<close>: the index of the first instance of \<^verbatim>\<open>substr\<close>
  in \<^verbatim>\<open>s\<close>; Go's \<^verbatim>\<open>-1\<close> is \<^term>\<open>None\<close>.\<close>

fun Index :: "string \<Rightarrow> string \<Rightarrow> nat option" where
  "Index [] sub = (if sub = [] then Some 0 else None)"
| "Index (c # cs) sub =
     (if HasPrefix (c # cs) sub then Some 0 else map_option Suc (Index cs sub))"

text \<open>\<^verbatim>\<open>strings.Contains(s, substr)\<close> is \<^verbatim>\<open>Index(s, substr) >= 0\<close>.\<close>

definition Contains :: "string \<Rightarrow> string \<Rightarrow> bool" where
  "Contains s sub = (Index s sub \<noteq> None)"

text \<open>
  The loop of \<^verbatim>\<open>strings.genSplit\<close> for a non-empty separator: at most \<open>n\<close> cuts at
  the leftmost instances of \<^verbatim>\<open>sep\<close>, the rest of the string being the last element.
\<close>

fun genSplit :: "string \<Rightarrow> string \<Rightarrow> nat \<Rightarrow> string list" where
  "genSplit s sep 0 = [s]"
| "genSplit s sep (Suc n) =
     (case Index s sep of
        None \<Rightarrow> [s]
      | Some m \<Rightarrow> take m s # genSplit (drop (m + length sep) s) sep n)"

text \<open>
  \<^verbatim>\<open>strings.SplitN(s, sep, n)\<close> for a non-empty \<^verbatim>\<open>sep\<close> (the only use in the program
  is \<^verbatim>\<open>SplitN(g, "\n", 2)\<close>): no result for \<open>n = 0\<close>, every instance for \<open>n < 0\<close>, and
  at most \<open>n\<close> substrings otherwise.  A string of length \<open>l\<close> holds at most \<open>l\<close> instances
  of a non-empty separator, which is also the bound \<^verbatim>\<open>genSplit\<close> clamps \<open>n\<close> to.
\<close>

definition SplitN :: "string \<Rightarrow> string \<Rightarrow> int \<Rightarrow> string list" where
  "SplitN s sep n =
     (if n = 0 then []
      else if n < 0 \<or> n > int (length s) + 1 then genSplit s sep (length s)
      else genSplit s sep (nat (n - 1)))"

text \<open>\<^verbatim>\<open>strings.Split(s, sep)\<close> is \<^verbatim>\<open>genSplit(s, sep, 0, -1)\<close>.\<close>

definition Split :: "string \<Rightarrow> string \<Rightarrow> string list" where
  "Split s sep = SplitN s sep (- 1)"

text \<open>\<^verbatim>\<open>strings.Join(elems, sep)\<close>.\<close>

fun Join :: "string list \<Rightarrow> string \<Rightarrow> string" where
  "Join [] sep = []"
| "Join [x] sep = x"
| "Join (x # y # ys) sep = x @ sep @ Join (y # ys) sep"

text \<open>
  \<^verbatim>\<open>strings.TrimSpace(s)\<close> removes all leading and trailing white space, as defined by
  Unicode, from the UTF-8 text \<^verbatim>\<open>s\<close>.  \<^verbatim>\<open>unicode.IsSpace\<close> accepts the six ASCII
  characters tab, line feed, vertical tab, form feed, carriage return and space, and the
  code points U+0085, U+00A0, U+1680, U+2000 to U+200A, U+2028, U+2029, U+202F, U+205F
  and U+3000.  A decoded rune is one of them exactly when the bytes decoded are its
  UTF-8 encoding (any other encoding is invalid and decodes to U+FFFD), so on bytes the
  function strips the encodings listed in \<open>spaceEncodings\<close>.
\<close>

definition spaceEncodings :: "string list" where
  "spaceEncodings =
     [[CHR 0x09], [CHR 0x0A], [CHR 0x0B], [CHR 0x0C], [CHR 0x0D], [CHR 0x20],
      [CHR 0xC2, CHR 0x85], [CHR 0xC2, CHR 0xA0],
      [CHR 0xE1, CHR 0x9A, CHR 0x80],
      [CHR 0xE2, CHR 0x80, CHR 0x80], [CHR 0xE2, CHR 0x80, CHR 0x81],
      [CHR 0xE2, CHR 0x80, CHR 0x82], [CHR 0xE2, CHR 0x80, CHR 0x83],
      [CHR 0xE2, CHR 0x80, CHR 0x84], [CHR 0xE2, CHR 0x80, CHR 0x85],
      [CHR 0xE2, CHR 0x80, CHR 0x86], [CHR 0xE2, CHR 0x80, CHR 0x87],
      [CHR 0xE2, CHR 0x80, CHR 0x88], [CHR 0xE2, CHR 0x80, CHR 0x89],
      [CHR 0xE2, CHR 0x80, CHR 0x8A],
      [CHR 0xE2, CHR 0x80, CHR 0xA8], [CHR 0xE2, CHR 0x80, CHR 0xA9],
      [CHR 0xE2, CHR 0x80, CHR 0xAF],
      [CHR 0xE2, CHR 0x81, CHR 0x9F],
      [CHR 0xE3, CHR 0x80, CHR 0x80]]"

text \<open>The white-space character a string starts with, if any.\<close>

definition leadingSpace :: "string list \<Rightarrow> string \<Rightarrow> string option" where
  "leadingSpace encs s = find (\<lambda>e. e \<noteq> [] \<and> HasPrefix s e) encs"

lemma HasPrefix_length: "HasPrefix s p \<Longrightarrow> length p \<le> length s"
  by (induction s p rule: HasPrefix.induct) auto

lemma leadingSpace_shorter:
  "leadingSpace encs s = Some e \<Longrightarrow> length s - length e < length s"
proof -
  assume "leadingSpace encs s = Some e"
  then have "e \<noteq> []" and "HasPrefix s e"
    by (auto simp: leadingSpace_def find_Some_iff)
  then show ?thesis
    by (cases e; cases s) (auto dest: HasPrefix_length)
qed

function stripLeading :: "string list \<Rightarrow> string \<Rightarrow> string" where
  "stripLeading encs s =
     (case leadingSpace encs s of
        None \<Rightarrow> s
      | Some e \<Rightarrow> stripLeading encs (drop (length e) s))"
  by pat_completeness auto
termination
  by (relation "measure (\<lambda>(encs, s). length s)") (auto simp: leadingSpace_shorter)

definition TrimLeftSpace :: "string \<Rightarrow> string" where
  "TrimLeftSpace s = stripLeading spaceEncodings s"

definition TrimRightSpace :: "string \<Rightarrow> string" where
  "TrimRightSpace s = rev (stripLeading (map rev spaceEncodings) (rev s))"

definition TrimSpace :: "string \<Rightarrow> string" where
  "TrimSpace s = TrimRightSpace (TrimLeftSpace s)"

text \<open>\<^verbatim>\<open>sort.Strings(x)\<close> sorts in increasing bytewise lexicographic order.\<close>

definition sortStrings :: "string list \<Rightarrow> string list" where
  "sortStrings gs = sort gs"

section \<open>The stack classifier: \<^verbatim>\<open>interestingGoroutines\<close>\<close>

text \<open>The table \<^verbatim>\<open>uninterestingMsgs\<close> of the closure \<^verbatim>\<open>shouldSkip\<close>.\<close>

definition uninterestingMsgs :: "string list" where
  "uninterestingMsgs =
     [''sync.(*WaitGroup).Done'',
      ''os.(*file).close'',
      ''os.(*Process).Release'',
      ''created by os/signal.init'',
      ''runtime/panic.go'',
      ''created by testing.RunTests'',
      ''created by testing.runTests'',
      ''created by testing.(*T).Run'',
      ''testing.Main('',
      ''runtime.goexit'',
      ''go.etcd.io/etcd/client/pkg/v3/testutil.interestingGoroutines'',
      ''go.etcd.io/etcd/client/pkg/v3/logutil.(*MergeLogger).outputLoop'',
      ''github.com/golang/glog.(*loggingT).flushDaemon'',
      ''created by runtime.gc'',
      ''created by text/template/parse.lex'',
      ''runtime.MHeap_Scavenger'',
      ''rcrypto/internal/boring.(*PublicKeyRSA).finalize'',
      ''net.(*netFD).Close('',
      ''testing.(*T).Run'',
      ''crypto/tls.(*certCache).evict'']"

text \<open>The closure \<^verbatim>\<open>shouldSkip\<close>: the loop returns true at the first message the
  stack contains.\<close>

fun skipLoop :: "string \<Rightarrow> string list \<Rightarrow> bool" where
  "skipLoop stack [] = False"
| "skipLoop stack (msg # msgs) =
     (if Contains stack msg then True else skipLoop stack msgs)"

definition shouldSkip :: "string \<Rightarrow> bool" where
  "shouldSkip stack = skipLoop stack uninterestingMsgs"

text \<open>
  The body of the \<^verbatim>\<open>for _, g := range strings.Split(string(buf), "\n\n")\<close> loop, with
  the slice \<^verbatim>\<open>gs\<close> it appends to as accumulator.  Each \<^verbatim>\<open>continue\<close> is a branch that
  leaves \<^verbatim>\<open>gs\<close> as it is.
\<close>

fun goroutineLoop :: "string list \<Rightarrow> string list \<Rightarrow> string list" where
  "goroutineLoop [] gs = gs"
| "goroutineLoop (g # rest) gs =
     (let sl = SplitN g [CHR 0x0A] 2 in
      if length sl \<noteq> 2 then goroutineLoop rest gs
      else
        let stack = TrimSpace (sl ! 1) in
        if stack = [] then goroutineLoop rest gs
        else if shouldSkip stack then goroutineLoop rest gs
        else goroutineLoop rest (gs @ [stack]))"

text \<open>
  \<^verbatim>\<open>interestingGoroutines\<close> on the text \<^verbatim>\<open>runtime.Stack\<close> wrote into the buffer: the
  function of the stack dump, without the call that takes the dump.
\<close>

definition classify :: "string \<Rightarrow> string list" where
  "classify dump = sortStrings (goroutineLoop (Split dump [CHR 0x0A, CHR 0x0A]) [])"

section \<open>Normalization of stack traces\<close>

text \<open>
  \<^verbatim>\<open>normalizedRegexp\<close> is \<^verbatim>\<open>\(0[0-9a-fx, ]*\)\<close>: an opening parenthesis, the digit
  \<^verbatim>\<open>0\<close>, any number of characters of the class \<^verbatim>\<open>[0-9a-fx, ]\<close>, and a closing
  parenthesis.
\<close>

definition addrChar :: "char \<Rightarrow> bool" where
  "addrChar c = (c \<in> set ''0123456789abcdefx, '')"

text \<open>
  A match of \<^verbatim>\<open>normalizedRegexp\<close> that starts at the first byte of \<open>s\<close>: the result is
  the text after the match.  The closing parenthesis is not in the class, so the
  repetition has to take every class character that follows \<^verbatim>\<open>(0\<close>, and the match at a
  position, if there is one, is unique.
\<close>

definition matchPrefix :: "string \<Rightarrow> string option" where
  "matchPrefix s =
     (case s of
        c1 # c2 # r \<Rightarrow>
          if c1 = CHR ''('' \<and> c2 = CHR ''0'' then
            (case dropWhile addrChar r of
               [] \<Rightarrow> None
             | c3 # r' \<Rightarrow> if c3 = CHR '')'' then Some r' else None)
          else None
      | _ \<Rightarrow> None)"

lemma matchPrefix_shorter: "matchPrefix s = Some r \<Longrightarrow> length r < length s"
proof -
  assume m: "matchPrefix s = Some r"
  then obtain c1 c2 t c3 where s: "s = c1 # c2 # t" and d: "dropWhile addrChar t = c3 # r"
    by (auto simp: matchPrefix_def split: list.splits if_splits)
  have "length (dropWhile addrChar t) \<le> length t"
    by (rule length_dropWhile_le)
  with s d show ?thesis by simp
qed

text \<open>
  \<^verbatim>\<open>normalizedRegexp.ReplaceAll(src, repl)\<close> for a replacement without \<^verbatim>\<open>$\<close>: the
  matches are found from left to right and do not overlap; a byte at which no match
  starts is copied.
\<close>

function ReplaceAll :: "string \<Rightarrow> string \<Rightarrow> string" where
  "ReplaceAll [] repl = []"
| "ReplaceAll (c # cs) repl =
     (case matchPrefix (c # cs) of
        Some rest \<Rightarrow> repl @ ReplaceAll rest repl
      | None \<Rightarrow> c # ReplaceAll cs repl)"
  by pat_completeness auto
termination
  by (relation "measure (\<lambda>(s, repl). length s)") (auto dest: matchPrefix_shorter)

text \<open>The statement \<^verbatim>\<open>normalized := string(normalizedRegexp.ReplaceAll([]byte(g), []byte("(...)")))\<close>.\<close>

definition normalize :: "string \<Rightarrow> string" where
  "normalize g = ReplaceAll g ''(...)''"

section \<open>The runtime and the state of the process\<close>

text \<open>
  What the program reads from its environment is a parameter of the model: the text the
  \<open>k\<close>-th call of \<^verbatim>\<open>runtime.Stack(buf, true)\<close> leaves in the buffer, the time that
  passes on the monotonic clock before its \<open>k\<close>-th reading (in nanoseconds, beyond the
  time slept), and the order in which the \<open>k\<close>-th \<^verbatim>\<open>range\<close> loop over a map visits the
  keys of the map, which Go leaves unspecified.
\<close>

record runtime =
  stackDump :: "nat \<Rightarrow> string"
  clockLag :: "nat \<Rightarrow> nat"
  rangeOrder :: "nat \<Rightarrow> string list \<Rightarrow> string list"

text \<open>
  What the program changes: the monotonic clock in nanoseconds, the calls made so far
  to the clock, to \<^verbatim>\<open>runtime.Stack\<close>, to \<^verbatim>\<open>time.Sleep\<close>, to \<^verbatim>\<open>runtime.Gosched\<close> and to
  \<^verbatim>\<open>CloseIdleConnections\<close>, the \<^verbatim>\<open>range\<close> loops over maps run so far, and the bytes
  written to \<^verbatim>\<open>os.Stderr\<close>.
\<close>

record world =
  now :: int
  clockReads :: nat
  stackCalls :: nat
  rangeLoops :: nat
  sleeps :: nat
  yields :: nat
  idleClosed :: nat
  stderr :: string

text \<open>\<^verbatim>\<open>time.Now()\<close> and \<^verbatim>\<open>time.Since(begin)\<close> read the clock; the reading is \<open>now\<close> of
  the state returned.\<close>

definition readClock :: "runtime \<Rightarrow> world \<Rightarrow> world" where
  "readClock rt w =
     w\<lparr>now := now w + int (clockLag rt (clockReads w)), clockReads := clockReads w + 1\<rparr>"

text \<open>\<^verbatim>\<open>time.Sleep(d)\<close> pauses for at least \<open>d\<close>, and returns at once for \<open>d \<le> 0\<close>.\<close>

definition Sleep :: "int \<Rightarrow> world \<Rightarrow> world" where
  "Sleep d w = w\<lparr>now := now w + max d 0, sleeps := sleeps w + 1\<rparr>"

definition Gosched :: "world \<Rightarrow> world" where
  "Gosched w = w\<lparr>yields := yields w + 1\<rparr>"

definition CloseIdleConnections :: "world \<Rightarrow> world" where
  "CloseIdleConnections w = w\<lparr>idleClosed := idleClosed w + 1\<rparr>"

definition Stack :: "runtime \<Rightarrow> world \<Rightarrow> string \<times> world" where
  "Stack rt w = (stackDump rt (stackCalls w), w\<lparr>stackCalls := stackCalls w + 1\<rparr>)"

definition rangeKeys :: "runtime \<Rightarrow> string list \<Rightarrow> world \<Rightarrow> string list \<times> world" where
  "rangeKeys rt ks w = (rangeOrder rt (rangeLoops w) ks, w\<lparr>rangeLoops := rangeLoops w + 1\<rparr>)"

text \<open>\<^verbatim>\<open>fmt.Fprint(os.Stderr, s)\<close>.\<close>

definition Fprint :: "string \<Rightarrow> world \<Rightarrow> world" where
  "Fprint s w = w\<lparr>stderr := stderr w @ s\<rparr>"

text \<open>The durations of package \<^verbatim>\<open>time\<close>, in nanoseconds.\<close>

definition Millisecond :: int where
  "Millisecond = 1000000"

definition Second :: int where
  "Second = 1000000000"

text \<open>\<^verbatim>\<open>interestingGoroutines\<close> with the call that takes the dump.\<close>

definition interestingGoroutines :: "runtime \<Rightarrow> world \<Rightarrow> string list \<times> world" where
  "interestingGoroutines rt w = (classify (fst (Stack rt w)), snd (Stack rt w))"

section \<open>The polling leak checker: \<^verbatim>\<open>CheckAfterTest\<close>\<close>

text \<open>The map \<^verbatim>\<open>badSubstring\<close>, as the list of its entries.\<close>

definition badSubstring :: "(string \<times> string) list" where
  "badSubstring =
     [('').writeLoop('', ''a Transport''),
      (''created by net/http/httptest.(*Server).Start'', ''an httptest.Server''),
      (''timeoutHandler'', ''a TimeoutHandler''),
      (''net.(*netFD).connect('', ''a timing out dial''),
      ('').noteClientGone('', ''a closenotifier sender''),
      ('').readLoop('', ''a Transport''),
      (''.grpc'', ''a gRPC resource''),
      ('').sendCloseSubstream('', ''a stream closing routine'')]"

text \<open>
  The loop \<^verbatim>\<open>for substr, what := range badSubstring\<close> over the keys in the order the
  runtime visits them; \<open>bad\<close> is the variable the loop assigns.
\<close>

fun badLoop :: "string \<Rightarrow> string list \<Rightarrow> string \<Rightarrow> string" where
  "badLoop stacks [] bad = bad"
| "badLoop stacks (substr # rest) bad =
     (case map_of badSubstring substr of
        None \<Rightarrow> badLoop stacks rest bad
      | Some what \<Rightarrow> badLoop stacks rest (if Contains stacks substr then what else bad))"

text \<open>\<^verbatim>\<open>fmt.Errorf("appears to have leaked %s:\n%s", bad, stacks)\<close>; an \<^verbatim>\<open>error\<close> is
  modelled by its message, \<^verbatim>\<open>nil\<close> by \<^term>\<open>None\<close>.\<close>

definition leakError :: "string \<Rightarrow> string \<Rightarrow> string" where
  "leakError bad stacks = ''appears to have leaked '' @ bad @ '':'' @ [CHR 0x0A] @ stacks"

text \<open>
  The loop \<^verbatim>\<open>for time.Since(begin) < d\<close> with the variables \<^verbatim>\<open>bad\<close> and \<^verbatim>\<open>stacks\<close>
  it assigns, followed by the \<^verbatim>\<open>return fmt.Errorf(...)\<close> after it.  Every pass that
  does not return sleeps for 50 ms, so the clock reaches \<open>begin + d\<close>.
\<close>

function pollLoop ::
  "runtime \<Rightarrow> int \<Rightarrow> int \<Rightarrow> string \<Rightarrow> string \<Rightarrow> world \<Rightarrow> string option \<times> world" where
  "pollLoop rt d begin bad stacks w =
     (let w1 = readClock rt w in
      if now w1 - begin < d then
        (let goroutines = fst (interestingGoroutines rt w1);
             w2 = snd (interestingGoroutines rt w1)
         in if length goroutines = 0 then (None, w2)
            else
              (let stacks' = Join goroutines [CHR 0x0A, CHR 0x0A];
                   keys = fst (rangeKeys rt (map fst badSubstring) w2);
                   w3 = snd (rangeKeys rt (map fst badSubstring) w2);
                   bad' = badLoop stacks' keys [];
                   w4 = Sleep (50 * Millisecond) (Gosched w3)
               in pollLoop rt d begin bad' stacks' w4))
      else (Some (leakError bad stacks), w1))"
  by pat_completeness auto
termination
  by (relation "measure (\<lambda>(rt, d, begin, bad, stacks, w). nat (d - (now w - begin)))")
    (auto simp: readClock_def interestingGoroutines_def Stack_def rangeKeys_def Sleep_def
      Gosched_def Millisecond_def)

declare pollLoop.simps [simp del]

text \<open>
  \<^verbatim>\<open>CheckAfterTest\<close>.  The type assertion in its first statement holds for the
  transport the package \<^verbatim>\<open>net/http\<close> starts with; the model is of a program that has
  not replaced it.  The monotonic clock makes \<^verbatim>\<open>time.Since(begin)\<close> non-negative.
\<close>

definition CheckAfterTest :: "runtime \<Rightarrow> int \<Rightarrow> world \<Rightarrow> string option \<times> world" where
  "CheckAfterTest rt d w =
     (let w0 = CloseIdleConnections w;
          wb = readClock rt w0;
          begin = now wb
      in pollLoop rt d begin [] [] wb)"

section \<open>The immediate leak reporter: \<^verbatim>\<open>CheckLeakedGoroutine\<close>\<close>

text \<open>
  The map \<^verbatim>\<open>stackCount\<close> is a list of entries with distinct keys.  Reading a key the
  map does not hold gives the zero value, and \<^verbatim>\<open>stackCount[normalized]++\<close> stores the
  value read plus one.
\<close>

definition mapGet :: "(string \<times> nat) list \<Rightarrow> string \<Rightarrow> nat" where
  "mapGet m k = (case map_of m k of None \<Rightarrow> 0 | Some n \<Rightarrow> n)"

definition mapIncr :: "(string \<times> nat) list \<Rightarrow> string \<Rightarrow> (string \<times> nat) list" where
  "mapIncr m k = AList.update k (mapGet m k + 1) m"

text \<open>The loop \<^verbatim>\<open>for _, g := range gs\<close> that fills \<^verbatim>\<open>stackCount\<close>.\<close>

fun countLoop :: "string list \<Rightarrow> (string \<times> nat) list \<Rightarrow> (string \<times> nat) list" where
  "countLoop [] stackCount = stackCount"
| "countLoop (g # gs) stackCount = countLoop gs (mapIncr stackCount (normalize g))"

text \<open>The verb \<^verbatim>\<open>%d\<close> on a count: its decimal digits.\<close>

definition digit :: "nat \<Rightarrow> char" where
  "digit n = char_of (48 + n)"

fun formatInt :: "nat \<Rightarrow> string" where
  "formatInt n = (if n < 10 then [digit n] else formatInt (n div 10) @ [digit (n mod 10)])"

text \<open>\<^verbatim>\<open>fmt.Sprintf("%d instances of:\n%s\n", count, stack)\<close>.\<close>

definition instancesOf :: "nat \<Rightarrow> string \<Rightarrow> string" where
  "instancesOf cnt stack =
     formatInt cnt @ '' instances of:'' @ [CHR 0x0A] @ stack @ [CHR 0x0A]"

text \<open>The loop \<^verbatim>\<open>for stack, count := range stackCount\<close> over the keys in the order the
  runtime visits them.\<close>

fun printLoop :: "(string \<times> nat) list \<Rightarrow> string list \<Rightarrow> world \<Rightarrow> world" where
  "printLoop stackCount [] w = w"
| "printLoop stackCount (stack # rest) w =
     (case map_of stackCount stack of
        None \<Rightarrow> printLoop stackCount rest w
      | Some cnt \<Rightarrow> printLoop stackCount rest (Fprint (instancesOf cnt stack) w))"

definition reportHeader :: string where
  "reportHeader = ''Unexpected goroutines running after all test(s).'' @ [CHR 0x0A]"

definition CheckLeakedGoroutine :: "runtime \<Rightarrow> world \<Rightarrow> bool \<times> world" where
  "CheckLeakedGoroutine rt w =
     (let gs = fst (interestingGoroutines rt w);
          w1 = snd (interestingGoroutines rt w)
      in if length gs = 0 then (False, w1)
         else
           (let stackCount = countLoop gs [];
                w2 = Fprint reportHeader w1;
                keys = fst (rangeKeys rt (map fst stackCount) w2);
                w3 = snd (rangeKeys rt (map fst stackCount) w2)
            in (True, printLoop stackCount keys w3)))"

section \<open>Test lifecycle integration\<close>

text \<open>
  Modelled from the spec: the interface \<^verbatim>\<open>TB\<close> of package \<^verbatim>\<open>testutil\<close>, which
  \<^verbatim>\<open>leak.go\<close> uses and another file of the package declares.  \<^verbatim>\<open>leak.go\<close> calls its
  methods \<^verbatim>\<open>Skip\<close>, \<^verbatim>\<open>Cleanup\<close>, \<^verbatim>\<open>Failed\<close> and \<^verbatim>\<open>Errorf\<close>; the state of a test
  is whether it has failed, whether it has been skipped, the lines it has logged, and the
  cleanup actions registered.  The only closure the program registers is
  \<^verbatim>\<open>func() { afterTest(t) }\<close>.
\<close>

datatype cleanup = AfterTest

record tb =
  failed :: bool
  skipped :: bool
  logs :: "string list"
  cleanups :: "cleanup list"

text \<open>Modelled from the spec: \<^verbatim>\<open>t.Skip(args...)\<close> skips the test with a diagnostic; it
  logs its arguments, separated by spaces, and marks the test as skipped.\<close>

definition Skip :: "string list \<Rightarrow> tb \<Rightarrow> tb" where
  "Skip args t = t\<lparr>skipped := True, logs := logs t @ [Join args '' '' @ [CHR 0x0A]]\<rparr>"

text \<open>Modelled from the spec: \<^verbatim>\<open>t.Errorf(format, args...)\<close> reports a test failure; it
  logs the formatted text and marks the test as failed.\<close>

definition Errorf :: "string \<Rightarrow> tb \<Rightarrow> tb" where
  "Errorf msg t = t\<lparr>failed := True, logs := logs t @ [msg]\<rparr>"

text \<open>Modelled from the spec: \<^verbatim>\<open>t.Cleanup(f)\<close> registers a cleanup action.\<close>

definition Cleanup :: "cleanup \<Rightarrow> tb \<Rightarrow> tb" where
  "Cleanup f t = t\<lparr>cleanups := cleanups t @ [f]\<rparr>"

definition RegisterLeakDetection :: "runtime \<Rightarrow> tb \<Rightarrow> world \<Rightarrow> tb \<times> world" where
  "RegisterLeakDetection rt t w =
     (case CheckAfterTest rt (10 * Millisecond) w of
        (Some err, w') \<Rightarrow> (Skip [''Found leaked goroutined BEFORE test'', err] t, w')
      | (None, w') \<Rightarrow> (Cleanup AfterTest t, w'))"

definition afterTest :: "runtime \<Rightarrow> tb \<Rightarrow> world \<Rightarrow> tb \<times> world" where
  "afterTest rt t w =
     (if \<not> failed t then
        (case CheckAfterTest rt (1 * Second) w of
           (Some err, w') \<Rightarrow> (Errorf (''Test '' @ err) t, w')
         | (None, w') \<Rightarrow> (t, w'))
      else (t, w))"

text \<open>
  \<^verbatim>\<open>MustCheckLeakedGoroutine\<close> either returns or ends the process with \<^verbatim>\<open>os.Exit(1)\<close>:
  the result is the exit status, if the process has exited.  The error of
  \<^verbatim>\<open>CheckAfterTest(5 * time.Second)\<close> is dropped.
\<close>

definition MustCheckLeakedGoroutine :: "runtime \<Rightarrow> world \<Rightarrow> int option \<times> world" where
  "MustCheckLeakedGoroutine rt w =
     (let w1 = CloseIdleConnections w;
          w2 = snd (CheckAfterTest rt (5 * Second) w1);
          w3 = Gosched w2;
          leaked = fst (CheckLeakedGoroutine rt w3);
          w4 = snd (CheckLeakedGoroutine rt w3)
      in if leaked then (Some 1, w4) else (None, w4))"

text \<open>
  \<^verbatim>\<open>MustTestMainWithLeakDetection\<close>, from the value \<open>v\<close> that \<^verbatim>\<open>m.Run()\<close> has returned
  and the state it has left: the status the process exits with.
\<close>

definition MustTestMainWithLeakDetection :: "runtime \<Rightarrow> int \<Rightarrow> world \<Rightarrow> int \<times> world" where
  "MustTestMainWithLeakDetection rt v w =
     (if v = 0 then
        (case MustCheckLeakedGoroutine rt w of
           (Some status, w') \<Rightarrow> (status, w')
         | (None, w') \<Rightarrow> (v, w'))
      else (v, w))"

section \<open>The notions of the specification\<close>

text \<open>
  A segment of a dump is one of the texts between blank-line delimiters.  Its header is
  its first line; its body is the text after the first line feed, if there is one.
\<close>

definition bodyOf :: "string \<Rightarrow> string option" where
  "bodyOf seg =
     (case dropWhile (\<lambda>c. c \<noteq> CHR 0x0A) seg of [] \<Rightarrow> None | nl # b \<Rightarrow> Some b)"

text \<open>A body matches the Allowlist when it contains one of its substrings.\<close>

definition allowlisted :: "string \<Rightarrow> bool" where
  "allowlisted body = list_ex (\<lambda>msg. Contains body msg) uninterestingMsgs"

definition allowlistedSegment :: "string \<Rightarrow> bool" where
  "allowlistedSegment seg = (case bodyOf seg of None \<Rightarrow> False | Some b \<Rightarrow> allowlisted b)"

text \<open>The frame of the Snapshotter in a stack trace.\<close>

definition snapshotterFrame :: string where
  "snapshotterFrame = ''go.etcd.io/etcd/client/pkg/v3/testutil.interestingGoroutines''"

text \<open>
  A surviving segment has a body that is not empty once the white space around it is
  trimmed, and that contains neither an Allowlist substring nor the frame of the
  Snapshotter.  Its stack trace is the trimmed body.
\<close>

definition interesting :: "string \<Rightarrow> bool" where
  "interesting seg =
     (case bodyOf seg of
        None \<Rightarrow> False
      | Some b \<Rightarrow> TrimSpace b \<noteq> [] \<and> \<not> allowlisted b \<and> \<not> Contains b snapshotterFrame)"

definition stackText :: "string \<Rightarrow> string" where
  "stackText seg = (case bodyOf seg of None \<Rightarrow> [] | Some b \<Rightarrow> TrimSpace b)"

text \<open>The bytes that occur in the encoding of a white-space character.\<close>

definition spaceBytes :: "char set" where
  "spaceBytes = \<Union> (set ` set spaceEncodings)"










text \<open>Whether the class characters a text starts with are followed by a closing parenthesis.\<close>

definition closes :: "string \<Rightarrow> bool" where
  "closes s = (case dropWhile addrChar s of [] \<Rightarrow> False | c # r \<Rightarrow> c = CHR '')'')"

text \<open>The interesting stacks in the \<open>k\<close>-th dump of the runtime.\<close>

definition survivors :: "runtime \<Rightarrow> nat \<Rightarrow> string list" where
  "survivors rt k = classify (stackDump rt k)"

text \<open>
  What a pass of the polling loop that starts in state \<open>w\<close> and finds a leak assigns
  to \<^verbatim>\<open>stacks\<close> and to \<^verbatim>\<open>bad\<close>, and the state it leaves; and the state a pass that
  finds no leak returns in.
\<close>

definition leakStacks :: "runtime \<Rightarrow> world \<Rightarrow> string" where
  "leakStacks rt w = Join (survivors rt (stackCalls w)) [CHR 0x0A, CHR 0x0A]"

definition leakLabel :: "runtime \<Rightarrow> world \<Rightarrow> string" where
  "leakLabel rt w =
     badLoop (leakStacks rt w) (rangeOrder rt (rangeLoops w) (map fst badSubstring)) []"

definition afterPoll :: "runtime \<Rightarrow> world \<Rightarrow> world" where
  "afterPoll rt w =
     Sleep (50 * Millisecond)
       (Gosched (snd (rangeKeys rt (map fst badSubstring)
          (snd (interestingGoroutines rt (readClock rt w))))))"

definition afterCleanPoll :: "runtime \<Rightarrow> world \<Rightarrow> world" where
  "afterCleanPoll rt w = snd (interestingGoroutines rt (readClock rt w))"

text \<open>The reading \<^verbatim>\<open>begin := time.Now()\<close> of a call of \<^verbatim>\<open>CheckAfterTest\<close> in state \<open>w\<close>.\<close>

definition startTime :: "runtime \<Rightarrow> world \<Rightarrow> int" where
  "startTime rt w = now (readClock rt (CloseIdleConnections w))"

text \<open>A \<^verbatim>\<open>range\<close> loop over a map visits every key of the map once, in some order.\<close>

definition visitsEachKeyOnce :: "runtime \<Rightarrow> bool" where
  "visitsEachKeyOnce rt = (\<forall>k ks. mset (rangeOrder rt k ks) = mset ks)"

text \<open>An entry of the Badness Table whose substring the stack text contains.\<close>

definition badMatch :: "string \<Rightarrow> string \<Rightarrow> string \<Rightarrow> bool" where
  "badMatch stacks sub what = ((sub, what) \<in> set badSubstring \<and> Contains stacks sub)"

text \<open>The state in which \<^verbatim>\<open>MustCheckLeakedGoroutine\<close> calls the Reporter.\<close>

definition beforeReport :: "runtime \<Rightarrow> world \<Rightarrow> world" where
  "beforeReport rt w = Gosched (snd (CheckAfterTest rt (5 * Second) (CloseIdleConnections w)))"

text \<open>How many of the traces have a given normalized signature.\<close>

definition occurrences :: "string list \<Rightarrow> string \<Rightarrow> nat" where
  "occurrences gs sig = length (filter (\<lambda>g. normalize g = sig) gs)"

text \<open>The number a text of decimal digits stands for.\<close>

definition decimalValue :: "string \<Rightarrow> nat" where
  "decimalValue s = foldl (\<lambda>a c. 10 * a + (of_char c - 48)) 0 s"

section \<open>Sample runs\<close>

text \<open>
  A process that has just started; a runtime with no goroutine to report; the same with
  5 ns between the readings of the clock; one whose leaked goroutine is gone at the third
  dump; one with a transport and a timeout handler
  that stay; and one with a transport that stays.
\<close>

definition freshWorld :: world where
  "freshWorld = \<lparr>now = 0, clockReads = 0, stackCalls = 0, rangeLoops = 0, sleeps = 0,
     yields = 0, idleClosed = 0, stderr = []\<rparr>"

definition idleRuntime :: runtime where
  "idleRuntime = \<lparr>stackDump = (\<lambda>k. []), clockLag = (\<lambda>k. 0), rangeOrder = (\<lambda>k ks. ks)\<rparr>"

definition laggingRuntime :: runtime where
  "laggingRuntime = \<lparr>stackDump = (\<lambda>k. []), clockLag = (\<lambda>k. 5), rangeOrder = (\<lambda>k ks. ks)\<rparr>"

definition settlingRuntime :: runtime where
  "settlingRuntime =
     \<lparr>stackDump = (\<lambda>k. if k < 2
          then ''goroutine 7 [select]:\<newline>main.worker(0xc000012345)'' else []),
      clockLag = (\<lambda>k. 1000), rangeOrder = (\<lambda>k ks. ks)\<rparr>"

definition twoLeaksRuntime :: runtime where
  "twoLeaksRuntime =
     \<lparr>stackDump = (\<lambda>k.
        ''goroutine 7 [select]:\<newline>net/http.(*persistConn).writeLoop(0xc0001)\<newline>\<newline>goroutine 8 [select]:\<newline>net/http.(*timeoutHandler).ServeHTTP(0xc0002)''),
      clockLag = (\<lambda>k. 0), rangeOrder = (\<lambda>k ks. ks)\<rparr>"

definition transportRuntime :: runtime where
  "transportRuntime =
     \<lparr>stackDump = (\<lambda>k.
        ''goroutine 7 [select]:\<newline>net/http.(*persistConn).writeLoop(0xc0001)''),
      clockLag = (\<lambda>k. 0), rangeOrder = (\<lambda>k ks. rev ks)\<rparr>"

text \<open>
  Further runtimes: two goroutines that differ in a pointer argument only; a goroutine
  that appears after the first dump.  And two tests: one that has failed, one that has
  just started.
\<close>

definition twinRuntime :: runtime where
  "twinRuntime =
     \<lparr>stackDump = (\<lambda>k.
        ''goroutine 7 [select]:\<newline>main.worker(0xc000012345, 0x2)\<newline>\<newline>goroutine 8 [select]:\<newline>main.worker(0xc000067890, 0x2)''),
      clockLag = (\<lambda>k. 0), rangeOrder = (\<lambda>k ks. rev ks)\<rparr>"

definition lateLeakRuntime :: runtime where
  "lateLeakRuntime =
     \<lparr>stackDump = (\<lambda>k. if k = 0 then []
          else ''goroutine 9 [chan receive]:\<newline>main.forgotten(0xc000054000)''),
      clockLag = (\<lambda>k. 250), rangeOrder = (\<lambda>k ks. ks)\<rparr>"

definition failedTest :: tb where
  "failedTest = \<lparr>failed = True, skipped = False, logs = [''--- FAIL''], cleanups = [AfterTest]\<rparr>"

definition newTest :: tb where
  "newTest = \<lparr>failed = False, skipped = False, logs = [], cleanups = []\<rparr>"

section \<open>Facts about the string functions\<close>

lemma HasPrefix_iff: "HasPrefix s p \<longleftrightarrow> (\<exists>v. s = p @ v)"
  by (induction s p rule: HasPrefix.induct) auto

lemma Index_Some_split:
  "Index s sub = Some m \<Longrightarrow> \<exists>v. s = take m s @ sub @ v \<and> m \<le> length s"
proof (induction s arbitrary: m)
  case Nil
  then show ?case by (auto split: if_splits)
next
  case (Cons c cs)
  show ?case
  proof (cases "HasPrefix (c # cs) sub")
    case True
    with Cons.prems show ?thesis by (auto simp: HasPrefix_iff)
  next
    case False
    with Cons.prems obtain k where k: "Index cs sub = Some k" "m = Suc k" by auto
    from Cons.IH [OF k(1)] k(2) show ?thesis by auto
  qed
qed

lemma Index_append_not_None: "Index (u @ sub @ v) sub \<noteq> None"
proof (induction u)
  case Nil
  have "HasPrefix (sub @ v) sub" by (auto simp: HasPrefix_iff)
  then show ?case by (cases "sub @ v") auto
next
  case (Cons c u)
  then show ?case by auto
qed

lemma Contains_iff: "Contains s sub \<longleftrightarrow> (\<exists>u v. s = u @ sub @ v)"
proof
  assume "Contains s sub"
  then obtain m where "Index s sub = Some m" by (auto simp: Contains_def)
  from Index_Some_split [OF this] show "\<exists>u v. s = u @ sub @ v" by blast
next
  assume "\<exists>u v. s = u @ sub @ v"
  then obtain u v where "s = u @ sub @ v" by blast
  with Index_append_not_None [of u sub v] show "Contains s sub"
    unfolding Contains_def by simp
qed

lemma Contains_rev: "Contains (rev s) (rev sub) = Contains s sub"
proof -
  have "(\<exists>u v. rev s = u @ rev sub @ v) \<longleftrightarrow> (\<exists>u v. s = u @ sub @ v)"
  proof
    assume "\<exists>u v. rev s = u @ rev sub @ v"
    then obtain u v where "rev s = u @ rev sub @ v" by blast
    then have "rev (rev s) = rev (u @ rev sub @ v)" by simp
    then have "s = rev v @ sub @ rev u" by simp
    then show "\<exists>u v. s = u @ sub @ v" by blast
  next
    assume "\<exists>u v. s = u @ sub @ v"
    then obtain u v where "s = u @ sub @ v" by blast
    then have "rev s = rev v @ rev sub @ rev u" by simp
    then show "\<exists>u v. rev s = u @ rev sub @ v" by blast
  qed
  then show ?thesis by (simp add: Contains_iff)
qed

lemma Contains_Cons_other:
  "sub \<noteq> [] \<Longrightarrow> hd sub \<noteq> c \<Longrightarrow> Contains (c # s) sub = Contains s sub"
  by (cases sub) (auto simp: Contains_def)

lemma Contains_append_other:
  "sub \<noteq> [] \<Longrightarrow> hd sub \<notin> set l \<Longrightarrow> Contains (l @ s) sub = Contains s sub"
  by (induction l) (auto simp: Contains_Cons_other)

lemma Contains_appendI: "Contains (u @ sub @ v) sub"
  by (auto simp: Contains_iff)

text \<open>What \<open>stripLeading\<close> removes is made of bytes of the encodings.\<close>

lemma stripLeading_decomp:
  "\<exists>l. s = l @ stripLeading encs s \<and> set l \<subseteq> \<Union> (set ` set encs)"
proof (induction encs s rule: stripLeading.induct)
  case (1 encs s)
  show ?case
  proof (cases "leadingSpace encs s")
    case None
    then show ?thesis by simp
  next
    case (Some e)
    then have e: "e \<in> set encs" "HasPrefix s e"
      by (auto simp: leadingSpace_def find_Some_iff)
    then have s: "s = e @ drop (length e) s" by (auto simp: HasPrefix_iff)
    from 1 [OF Some] obtain l where
      l: "drop (length e) s = l @ stripLeading encs (drop (length e) s)"
        "set l \<subseteq> \<Union> (set ` set encs)"
      by blast
    have "s = (e @ l) @ stripLeading encs s"
      using s l(1) Some by (metis append.assoc stripLeading.simps option.simps(5))
    moreover have "set (e @ l) \<subseteq> \<Union> (set ` set encs)" using e(1) l(2) by auto
    ultimately show ?thesis by blast
  qed
qed

lemma spaceBytes_rev: "\<Union> (set ` set (map rev spaceEncodings)) = spaceBytes"
  by (simp add: spaceBytes_def)

text \<open>
  Trimming does not change whether a text is contained, when the text neither starts
  nor ends with a byte of a white-space character.
\<close>

lemma Contains_TrimLeftSpace:
  "sub \<noteq> [] \<Longrightarrow> hd sub \<notin> spaceBytes \<Longrightarrow> Contains (TrimLeftSpace s) sub = Contains s sub"
proof -
  assume sub: "sub \<noteq> []" "hd sub \<notin> spaceBytes"
  obtain l where l: "s = l @ TrimLeftSpace s" "set l \<subseteq> spaceBytes"
    using stripLeading_decomp [of s spaceEncodings]
    unfolding TrimLeftSpace_def spaceBytes_def by blast
  from l(2) sub(2) have "hd sub \<notin> set l" by blast
  with sub(1) have "Contains (l @ TrimLeftSpace s) sub = Contains (TrimLeftSpace s) sub"
    by (rule Contains_append_other)
  with l(1) show ?thesis by simp
qed

lemma Contains_TrimRightSpace:
  "sub \<noteq> [] \<Longrightarrow> last sub \<notin> spaceBytes \<Longrightarrow> Contains (TrimRightSpace s) sub = Contains s sub"
proof -
  assume sub: "sub \<noteq> []" "last sub \<notin> spaceBytes"
  let ?t = "stripLeading (map rev spaceEncodings) (rev s)"
  obtain l where l: "rev s = l @ ?t" "set l \<subseteq> spaceBytes"
    using stripLeading_decomp [of "rev s" "map rev spaceEncodings"]
    unfolding spaceBytes_rev by blast
  from sub have r: "rev sub \<noteq> []" "hd (rev sub) \<notin> set l"
    using l(2) by (auto simp: hd_rev)
  have "Contains (TrimRightSpace s) sub = Contains ?t (rev sub)"
    unfolding TrimRightSpace_def using Contains_rev [of ?t "rev sub"] by simp
  also have "\<dots> = Contains (l @ ?t) (rev sub)"
    using Contains_append_other [OF r] by simp
  also have "\<dots> = Contains s sub"
    using l(1) Contains_rev [of s sub] by simp
  finally show ?thesis .
qed

lemma Contains_TrimSpace:
  "sub \<noteq> [] \<Longrightarrow> hd sub \<notin> spaceBytes \<Longrightarrow> last sub \<notin> spaceBytes \<Longrightarrow>
   Contains (TrimSpace s) sub = Contains s sub"
  by (simp add: TrimSpace_def Contains_TrimLeftSpace Contains_TrimRightSpace)

lemma spaceBytes_eq:
  "spaceBytes = set [CHR 0x09, CHR 0x0A, CHR 0x0B, CHR 0x0C, CHR 0x0D, CHR 0x20,
     CHR 0xC2, CHR 0x85, CHR 0xA0, CHR 0xE1, CHR 0x9A, CHR 0x80, CHR 0xE2, CHR 0x81,
     CHR 0x82, CHR 0x83, CHR 0x84, CHR 0x86, CHR 0x87, CHR 0x88, CHR 0x89, CHR 0x8A,
     CHR 0xA8, CHR 0xA9, CHR 0xAF, CHR 0x9F, CHR 0xE3]"
  unfolding spaceBytes_def spaceEncodings_def by auto

lemma uninterestingMsgs_solid:
  "list_all (\<lambda>msg. msg \<noteq> [] \<and> hd msg \<notin> spaceBytes \<and> last msg \<notin> spaceBytes)
     uninterestingMsgs"
  unfolding spaceBytes_eq uninterestingMsgs_def by code_simp





section \<open>The classifier returns the surviving stack traces, sorted\<close>

lemma Index_single:
  "Index s [c] = (if c \<in> set s then Some (length (takeWhile (\<lambda>x. x \<noteq> c) s)) else None)"
  by (induction s) auto

lemma SplitN_line:
  "SplitN g [c] 2 =
     (if c \<in> set g then [takeWhile (\<lambda>x. x \<noteq> c) g, tl (dropWhile (\<lambda>x. x \<noteq> c) g)]
      else [g])"
proof (cases g)
  case Nil
  then show ?thesis by (simp add: SplitN_def)
next
  case (Cons a as)
  let ?P = "\<lambda>x. x \<noteq> c"
  have g: "SplitN g [c] 2 = genSplit g [c] (Suc 0)"
    using Cons by (simp add: SplitN_def)
  have t: "take (length (takeWhile ?P g)) g = takeWhile ?P g"
    by (rule takeWhile_eq_take [symmetric])
  have "drop (length (takeWhile ?P g)) g = dropWhile ?P g"
    by (rule dropWhile_eq_drop [symmetric])
  then have d: "drop (Suc (length (takeWhile ?P g))) g = tl (dropWhile ?P g)"
    by (simp add: drop_Suc drop_tl)
  show ?thesis
    unfolding g by (simp add: Index_single t d)
qed

lemma bodyOf_None: "bodyOf seg = None \<longleftrightarrow> CHR 0x0A \<notin> set seg"
proof -
  have "(case xs of [] \<Rightarrow> None | nl # b \<Rightarrow> Some b) = None \<longleftrightarrow> xs = []" for xs :: string
    by (cases xs) simp_all
  then have "bodyOf seg = None \<longleftrightarrow> dropWhile (\<lambda>c. c \<noteq> CHR 0x0A) seg = []"
    unfolding bodyOf_def .
  also have "\<dots> \<longleftrightarrow> CHR 0x0A \<notin> set seg"
    by (auto simp: dropWhile_eq_Nil_conv)
  finally show ?thesis .
qed

lemma bodyOf_Some: "bodyOf seg = Some b \<Longrightarrow> tl (dropWhile (\<lambda>x. x \<noteq> CHR 0x0A) seg) = b"
  by (auto simp: bodyOf_def split: list.splits)

lemma skipLoop_iff: "skipLoop stack msgs \<longleftrightarrow> list_ex (\<lambda>msg. Contains stack msg) msgs"
  by (induction msgs) auto

lemma allowlisted_TrimSpace: "allowlisted (TrimSpace b) = allowlisted b"
proof -
  have "Contains (TrimSpace b) msg = Contains b msg" if "msg \<in> set uninterestingMsgs" for msg
  proof (rule Contains_TrimSpace)
    show "msg \<noteq> []" "hd msg \<notin> spaceBytes" "last msg \<notin> spaceBytes"
      using that uninterestingMsgs_solid by (auto simp: list_all_iff)
  qed
  then show ?thesis by (simp add: allowlisted_def list_ex_iff)
qed

lemma snapshotterFrame_allowlisted: "Contains b snapshotterFrame \<Longrightarrow> allowlisted b"
  by (simp add: allowlisted_def list_ex_iff uninterestingMsgs_def snapshotterFrame_def)

lemma goroutineLoop_eq:
  "goroutineLoop segs gs = gs @ map stackText (filter interesting segs)"
proof (induction segs arbitrary: gs)
  case Nil
  then show ?case by simp
next
  case (Cons g rest)
  show ?case
  proof (cases "bodyOf g")
    case None
    then have "length (SplitN g [CHR 0x0A] 2) \<noteq> 2"
      by (simp add: SplitN_line bodyOf_None)
    with None show ?thesis by (simp add: Cons.IH interesting_def Let_def)
  next
    case (Some b)
    then have sl: "SplitN g [CHR 0x0A] 2 = [takeWhile (\<lambda>x. x \<noteq> CHR 0x0A) g, b]"
      using bodyOf_None [of g] bodyOf_Some [of g b] by (simp add: SplitN_line)
    have skip: "shouldSkip (TrimSpace b) = allowlisted b"
      by (simp add: shouldSkip_def skipLoop_iff allowlisted_TrimSpace flip: allowlisted_def)
    have int: "interesting g \<longleftrightarrow> TrimSpace b \<noteq> [] \<and> \<not> allowlisted b"
      using Some snapshotterFrame_allowlisted [of b] by (auto simp: interesting_def)
    show ?thesis
      using Some by (simp add: sl skip int Cons.IH stackText_def Let_def)
  qed
qed

lemma classify_eq:
  "classify dump =
     sort (map stackText (filter interesting (Split dump [CHR 0x0A, CHR 0x0A])))"
  by (simp add: classify_def sortStrings_def goroutineLoop_eq)

text \<open>The survivors are the same when the Allowlist is tried on the trimmed body, as
  the program does.\<close>

lemma interesting_trimmed:
  "interesting seg \<longleftrightarrow>
     bodyOf seg \<noteq> None \<and> stackText seg \<noteq> [] \<and> \<not> allowlisted (stackText seg)"
  using snapshotterFrame_allowlisted
  by (auto simp: interesting_def stackText_def allowlisted_TrimSpace split: option.splits)

lemma allowlistedSegment_not_interesting: "allowlistedSegment seg \<Longrightarrow> \<not> interesting seg"
  by (auto simp: allowlistedSegment_def interesting_def split: option.splits)

text \<open>
  C1.  For every raw stack dump, the classifier returns the stack traces of exactly the
  segments that have, after the header line, a body that is not blank and contains
  neither an Allowlist substring nor the frame of the Snapshotter, in increasing
  lexicographic order and with their multiplicities.  A dump in which every segment
  matches the Allowlist gives the empty sequence, and a dump with at least one
  surviving segment gives a non-empty one.
\<close>

theorem classify_interesting_sorted:
  "classify dump =
     sort (map stackText (filter interesting (Split dump [CHR 0x0A, CHR 0x0A])))
   \<and> sorted (classify dump)
   \<and> ((\<forall>seg \<in> set (Split dump [CHR 0x0A, CHR 0x0A]). allowlistedSegment seg)
        \<longrightarrow> classify dump = [])
   \<and> ((\<exists>seg \<in> set (Split dump [CHR 0x0A, CHR 0x0A]). interesting seg)
        \<longrightarrow> classify dump \<noteq> [])"
proof -
  let ?segs = "Split dump [CHR 0x0A, CHR 0x0A]"
  have eq: "classify dump = sort (map stackText (filter interesting ?segs))"
    by (rule classify_eq)
  then have "sorted (classify dump)" by simp
  moreover have "classify dump = []" if "\<forall>seg \<in> set ?segs. allowlistedSegment seg"
  proof -
    from that have "filter interesting ?segs = []"
      by (auto simp: filter_empty_conv dest: allowlistedSegment_not_interesting)
    with eq show ?thesis by simp
  qed
  moreover have "classify dump \<noteq> []" if "\<exists>seg \<in> set ?segs. interesting seg"
  proof -
    from that have "filter interesting ?segs \<noteq> []"
      by (auto simp: filter_empty_conv)
    then have "length (classify dump) \<noteq> 0" unfolding eq by simp
    then show ?thesis by auto
  qed
  ultimately show ?thesis using eq by blast
qed

theorem classify_interesting_sorted_witness:
  "(\<exists>seg \<in> set (Split
        (''goroutine 1 [running]:'' @ [CHR 0x0A] @ ''main.leak(0xc000012345)'' @ [CHR 0x0A, CHR 0x0A]
          @ ''goroutine 2 [running]:'' @ [CHR 0x0A] @ ''created by testing.RunTests'')
        [CHR 0x0A, CHR 0x0A]). interesting seg)
   \<and> classify
        (''goroutine 1 [running]:'' @ [CHR 0x0A] @ ''main.leak(0xc000012345)'' @ [CHR 0x0A, CHR 0x0A]
          @ ''goroutine 2 [running]:'' @ [CHR 0x0A] @ ''created by testing.RunTests'')
       = [''main.leak(0xc000012345)'']
   \<and> list_all allowlistedSegment (Split
        (''goroutine 2 [running]:'' @ [CHR 0x0A] @ ''created by testing.RunTests'')
        [CHR 0x0A, CHR 0x0A])
   \<and> classify (''goroutine 2 [running]:'' @ [CHR 0x0A] @ ''created by testing.RunTests'') = []"
proof -
  let ?d1 = "''goroutine 1 [running]:'' @ [CHR 0x0A] @ ''main.leak(0xc000012345)''
    @ [CHR 0x0A, CHR 0x0A] @ ''goroutine 2 [running]:'' @ [CHR 0x0A]
    @ ''created by testing.RunTests''"
  let ?d2 = "''goroutine 2 [running]:'' @ [CHR 0x0A] @ ''created by testing.RunTests''"
  have h1: "\<exists>seg \<in> set (Split ?d1 [CHR 0x0A, CHR 0x0A]). interesting seg"
    by code_simp
  have h2: "\<forall>seg \<in> set (Split ?d2 [CHR 0x0A, CHR 0x0A]). allowlistedSegment seg"
    by code_simp
  have v1: "sort (map stackText (filter interesting (Split ?d1 [CHR 0x0A, CHR 0x0A])))
    = [''main.leak(0xc000012345)'']"
    by code_simp
  from classify_interesting_sorted [of ?d1] v1
  have c1: "classify ?d1 = [''main.leak(0xc000012345)'']" by (simp only:)
  from classify_interesting_sorted [of ?d2] h2
  have c2: "classify ?d2 = []" by blast
  from h2 have h2': "list_all allowlistedSegment (Split ?d2 [CHR 0x0A, CHR 0x0A])"
    by (simp only: list_all_iff)
  from h1 c1 h2' c2 show ?thesis by blast
qed

section \<open>Normalization\<close>

lemma matchPrefix_Cons2:
  "matchPrefix (c1 # c2 # r) =
     (if c1 = CHR ''('' \<and> c2 = CHR ''0'' \<and> closes r
      then Some (tl (dropWhile addrChar r)) else None)"
  unfolding matchPrefix_def closes_def
  by (simp split: list.split del: dropWhile_eq_Nil_conv)

lemma matchPrefix_short [simp]: "matchPrefix [] = None" "matchPrefix [c] = None"
  by (simp_all add: matchPrefix_def)

lemma matchPrefix_None_iff:
  "matchPrefix s = None \<longleftrightarrow>
     \<not> (\<exists>r. s = CHR ''('' # CHR ''0'' # r \<and> closes r)"
proof (cases s)
  case Nil
  then show ?thesis by simp
next
  case (Cons c1 t)
  then show ?thesis by (cases t) (auto simp: matchPrefix_Cons2)
qed

lemma addrChar_paren [simp]: "\<not> addrChar CHR ''(''" "\<not> addrChar CHR '')''" "\<not> addrChar CHR ''.''"
  by (simp_all add: addrChar_def)

lemma normalize_Nil [simp]: "normalize [] = []"
  by (simp add: normalize_def)

lemma normalize_Cons:
  "normalize (c # cs) =
     (case matchPrefix (c # cs) of
        Some rest \<Rightarrow> ''(...)'' @ normalize rest
      | None \<Rightarrow> c # normalize cs)"
  by (simp add: normalize_def split: option.split)

lemma matchPrefix_not_paren: "c \<noteq> CHR ''('' \<Longrightarrow> matchPrefix (c # cs) = None"
  by (simp add: matchPrefix_None_iff)

lemma matchPrefix_Some_paren: "matchPrefix (c # cs) = Some r \<Longrightarrow> c = CHR ''(''"
  using matchPrefix_not_paren [of c cs] by auto

lemma normalize_hd: "\<exists>t. normalize (c # cs) = c # t"
  by (auto simp: normalize_Cons dest: matchPrefix_Some_paren split: option.splits)

lemma closes_Cons: "closes (c # s) = (if addrChar c then closes s else c = CHR '')'')"
  by (simp add: closes_def)

lemma closes_normalize: "closes (normalize s) = closes s"
proof (induction s)
  case Nil
  then show ?case by simp
next
  case (Cons c s)
  show ?case
  proof (cases "addrChar c")
    case True
    then have "c \<noteq> CHR ''(''" by auto
    then have "normalize (c # s) = c # normalize s"
      by (simp add: normalize_Cons matchPrefix_not_paren)
    with True Cons.IH show ?thesis by (simp add: closes_Cons)
  next
    case False
    obtain t where "normalize (c # s) = c # t" using normalize_hd by blast
    with False show ?thesis by (simp add: closes_Cons)
  qed
qed

lemma matchPrefix_normalize_None:
  assumes "matchPrefix (c # cs) = None"
  shows "matchPrefix (c # normalize cs) = None"
proof (rule ccontr)
  assume "matchPrefix (c # normalize cs) \<noteq> None"
  then obtain r where c: "c = CHR ''(''" and n: "normalize cs = CHR ''0'' # r" and cl: "closes r"
    by (auto simp: matchPrefix_None_iff)
  from n obtain cs' where cs: "cs = CHR ''0'' # cs'"
    using normalize_hd [of _ _] by (cases cs) (auto, metis list.inject)
  have "normalize cs = CHR ''0'' # normalize cs'"
    unfolding cs by (simp add: normalize_Cons matchPrefix_not_paren)
  with n have "r = normalize cs'" by simp
  with cl have "closes cs'" by (simp add: closes_normalize)
  with c cs have "matchPrefix (c # cs) \<noteq> None" by (simp add: matchPrefix_None_iff)
  with assms show False by simp
qed

lemma normalize_placeholder: "normalize (''(...)'' @ t) = ''(...)'' @ normalize t"
  by (simp add: normalize_Cons matchPrefix_Cons2 matchPrefix_not_paren)

text \<open>
  C4.  Normalization is idempotent: the replacement of the matches of
  \<^verbatim>\<open>\(0[0-9a-fx, ]*\)\<close> by \<^verbatim>\<open>(...)\<close> leaves an already normalized trace as it is.
\<close>

theorem normalize_idempotent: "normalize (normalize s) = normalize s"
proof (induction s "''(...)''" rule: ReplaceAll.induct)
  case 1
  then show ?case by simp
next
  case (2 c cs)
  show ?case
  proof (cases "matchPrefix (c # cs)")
    case None
    with 2 have ih: "normalize (normalize cs) = normalize cs"
      by (simp add: normalize_def)
    from None have "matchPrefix (c # normalize cs) = None"
      by (rule matchPrefix_normalize_None)
    with None ih show ?thesis by (simp add: normalize_Cons)
  next
    case (Some rest)
    with 2 have ih: "normalize (normalize rest) = normalize rest"
      by (simp add: normalize_def)
    have "normalize (c # cs) = ''(...)'' @ normalize rest"
      using Some by (simp add: normalize_Cons)
    then show ?thesis
      using ih by (simp only: normalize_placeholder)
  qed
qed



lemma closes_Nil [simp]: "\<not> closes []"
  by (simp add: closes_def)













text \<open>The counts the Reporter keeps.\<close>

lemma mapGet_Nil [simp]: "mapGet [] k = 0"
  by (simp add: mapGet_def)

lemma mapGet_mapIncr:
  "mapGet (mapIncr m k) k' = (if k' = k then mapGet m k + 1 else mapGet m k')"
  by (simp add: mapGet_def mapIncr_def update_conv')

lemma mapGet_countLoop:
  "mapGet (countLoop gs m) k = mapGet m k + length (filter (\<lambda>g. normalize g = k) gs)"
  by (induction gs arbitrary: m) (auto simp: mapGet_mapIncr)

lemma distinct_countLoop:
  "distinct (map fst m) \<Longrightarrow> distinct (map fst (countLoop gs m))"
  by (induction gs arbitrary: m) (auto simp: mapIncr_def distinct_update)

lemma keys_countLoop:
  "fst ` set (countLoop gs m) = fst ` set m \<union> normalize ` set gs"
  by (induction gs arbitrary: m) (auto simp: mapIncr_def dom_update)




section \<open>The polling loop\<close>

lemma pollLoop_unfold:
  "pollLoop rt d begin bad stacks w =
     (if now (readClock rt w) - begin < d then
        (if survivors rt (stackCalls w) = [] then (None, afterCleanPoll rt w)
         else pollLoop rt d begin (leakLabel rt w) (leakStacks rt w) (afterPoll rt w))
      else (Some (leakError bad stacks), readClock rt w))"
proof -
  have g: "fst (interestingGoroutines rt (readClock rt w)) = survivors rt (stackCalls w)"
    by (simp add: interestingGoroutines_def Stack_def readClock_def survivors_def)
  have k: "fst (rangeKeys rt (map fst badSubstring) (snd (interestingGoroutines rt (readClock rt w))))
      = rangeOrder rt (rangeLoops w) (map fst badSubstring)"
    by (simp add: interestingGoroutines_def Stack_def readClock_def rangeKeys_def)
  show ?thesis
    by (subst pollLoop.simps)
      (simp add: Let_def g k leakStacks_def leakLabel_def afterPoll_def afterCleanPoll_def)
qed

lemma afterPoll_simps [simp]:
  "stackCalls (afterPoll rt w) = stackCalls w + 1"
  "rangeLoops (afterPoll rt w) = rangeLoops w + 1"
  "sleeps (afterPoll rt w) = sleeps w + 1"
  "now (afterPoll rt w) = now w + int (clockLag rt (clockReads w)) + 50 * Millisecond"
  by (simp_all add: afterPoll_def readClock_def Sleep_def Gosched_def rangeKeys_def
      interestingGoroutines_def Stack_def Millisecond_def)

lemma readClock_simps [simp]:
  "stackCalls (readClock rt w) = stackCalls w"
  "rangeLoops (readClock rt w) = rangeLoops w"
  "sleeps (readClock rt w) = sleeps w"
  "now (readClock rt w) = now w + int (clockLag rt (clockReads w))"
  "stderr (readClock rt w) = stderr w"
  by (simp_all add: readClock_def)

lemma afterCleanPoll_simps [simp]:
  "stackCalls (afterCleanPoll rt w) = stackCalls w + 1"
  "rangeLoops (afterCleanPoll rt w) = rangeLoops w"
  "sleeps (afterCleanPoll rt w) = sleeps w"
  "now (afterCleanPoll rt w) = now w + int (clockLag rt (clockReads w))"
  by (simp_all add: afterCleanPoll_def readClock_def interestingGoroutines_def Stack_def)

lemma pollLoop_induct [consumes 0, case_names expired clean leak]:
  assumes expired: "\<And>bad stacks w. d \<le> now (readClock rt w) - start \<Longrightarrow> P bad stacks w"
    and clean: "\<And>bad stacks w. now (readClock rt w) - start < d \<Longrightarrow>
      survivors rt (stackCalls w) = [] \<Longrightarrow> P bad stacks w"
    and leak: "\<And>bad stacks w. now (readClock rt w) - start < d \<Longrightarrow>
      survivors rt (stackCalls w) \<noteq> [] \<Longrightarrow>
      P (leakLabel rt w) (leakStacks rt w) (afterPoll rt w) \<Longrightarrow> P bad stacks w"
  shows "P bad stacks w"
proof (induction "nat (d - (now w - start))" arbitrary: bad stacks w rule: less_induct)
  case less
  show ?case
  proof (cases "now (readClock rt w) - start < d")
    case False
    then show ?thesis by (intro expired) simp
  next
    case True
    show ?thesis
    proof (cases "survivors rt (stackCalls w) = []")
      case True
      with \<open>now (readClock rt w) - start < d\<close> show ?thesis by (rule clean)
    next
      case False
      have "nat (d - (now (afterPoll rt w) - start)) < nat (d - (now w - start))"
        using True by (simp add: Millisecond_def)
      then have "P (leakLabel rt w) (leakStacks rt w) (afterPoll rt w)"
        by (rule less.hyps)
      with True False show ?thesis by (rule leak)
    qed
  qed
qed

text \<open>The polls of a run: what the result says about them.\<close>

lemma pollLoop_polls:
  "stackCalls w \<le> stackCalls (snd (pollLoop rt d begin bad stacks w))
   \<and> (\<forall>k. stackCalls w \<le> k \<and> Suc k < stackCalls (snd (pollLoop rt d begin bad stacks w))
         \<longrightarrow> survivors rt k \<noteq> [])"
proof (induction bad stacks w rule: pollLoop_induct [where rt = rt and d = d and start = "begin"])
  case (expired bad stacks w)
  then have "pollLoop rt d begin bad stacks w = (Some (leakError bad stacks), readClock rt w)"
    by (subst pollLoop_unfold) simp
  then show ?case by auto
next
  case (clean bad stacks w)
  then have "pollLoop rt d begin bad stacks w = (None, afterCleanPoll rt w)"
    by (subst pollLoop_unfold) simp
  then show ?case by auto
next
  case (leak bad stacks w)
  have u: "pollLoop rt d begin bad stacks w
      = pollLoop rt d begin (leakLabel rt w) (leakStacks rt w) (afterPoll rt w)"
    using leak(1,2) by (subst pollLoop_unfold) simp
  let ?w' = "snd (pollLoop rt d begin (leakLabel rt w) (leakStacks rt w) (afterPoll rt w))"
  show ?case
    unfolding u
  proof (intro conjI allI impI)
    show "stackCalls w \<le> stackCalls ?w'" using leak(3) by simp
  next
    fix k
    assume k: "stackCalls w \<le> k \<and> Suc k < stackCalls ?w'"
    show "survivors rt k \<noteq> []"
    proof (cases "k = stackCalls w")
      case True
      with leak(2) show ?thesis by simp
    next
      case False
      with k have "Suc (stackCalls w) \<le> k" by simp
      with k leak(3) show ?thesis by simp
    qed
  qed
qed

lemma pollLoop_success:
  "fst (pollLoop rt d begin bad stacks w) = None \<Longrightarrow>
   stackCalls w < stackCalls (snd (pollLoop rt d begin bad stacks w))
   \<and> survivors rt (stackCalls (snd (pollLoop rt d begin bad stacks w)) - 1) = []
   \<and> sleeps (snd (pollLoop rt d begin bad stacks w)) + 1
       = sleeps w + (stackCalls (snd (pollLoop rt d begin bad stacks w)) - stackCalls w)
   \<and> now (snd (pollLoop rt d begin bad stacks w)) - begin < d"
proof (induction bad stacks w rule: pollLoop_induct [where rt = rt and d = d and start = "begin"])
  case (expired bad stacks w)
  from expired(2) expired(1) show ?case by (subst (asm) pollLoop_unfold) simp
next
  case (clean bad stacks w)
  have u: "pollLoop rt d begin bad stacks w = (None, afterCleanPoll rt w)"
    using clean(1,2) by (subst pollLoop_unfold) simp
  show ?case unfolding u using clean(1,2) by simp
next
  case (leak bad stacks w)
  have u: "pollLoop rt d begin bad stacks w
      = pollLoop rt d begin (leakLabel rt w) (leakStacks rt w) (afterPoll rt w)"
    using leak(1,2) by (subst pollLoop_unfold) simp
  from leak(3) leak(4) show ?case
    unfolding u by auto
qed

lemma pollLoop_failure:
  "fst (pollLoop rt d begin bad stacks w) = Some msg \<Longrightarrow>
   d \<le> now (snd (pollLoop rt d begin bad stacks w)) - begin
   \<and> sleeps (snd (pollLoop rt d begin bad stacks w))
       = sleeps w + (stackCalls (snd (pollLoop rt d begin bad stacks w)) - stackCalls w)
   \<and> rangeLoops (snd (pollLoop rt d begin bad stacks w))
       = rangeLoops w + (stackCalls (snd (pollLoop rt d begin bad stacks w)) - stackCalls w)
   \<and> (if stackCalls (snd (pollLoop rt d begin bad stacks w)) = stackCalls w
       then msg = leakError bad stacks
       else survivors rt (stackCalls (snd (pollLoop rt d begin bad stacks w)) - 1) \<noteq> []
         \<and> msg = leakError
             (badLoop (Join (survivors rt (stackCalls (snd (pollLoop rt d begin bad stacks w)) - 1))
                  [CHR 0x0A, CHR 0x0A])
                (rangeOrder rt (rangeLoops (snd (pollLoop rt d begin bad stacks w)) - 1)
                  (map fst badSubstring)) [])
             (Join (survivors rt (stackCalls (snd (pollLoop rt d begin bad stacks w)) - 1))
                  [CHR 0x0A, CHR 0x0A]))"
proof (induction bad stacks w rule: pollLoop_induct [where rt = rt and d = d and start = "begin"])
  case (expired bad stacks w)
  have u: "pollLoop rt d begin bad stacks w = (Some (leakError bad stacks), readClock rt w)"
    using expired(1) by (subst pollLoop_unfold) simp
  from expired show ?case unfolding u by simp
next
  case (clean bad stacks w)
  from clean(3) clean(1,2) show ?case by (subst (asm) pollLoop_unfold) simp
next
  case (leak bad stacks w)
  have u: "pollLoop rt d begin bad stacks w
      = pollLoop rt d begin (leakLabel rt w) (leakStacks rt w) (afterPoll rt w)"
    using leak(1,2) by (subst pollLoop_unfold) simp
  let ?w' = "snd (pollLoop rt d begin (leakLabel rt w) (leakStacks rt w) (afterPoll rt w))"
  have mono: "stackCalls (afterPoll rt w) \<le> stackCalls ?w'"
    using pollLoop_polls [of "afterPoll rt w" rt d "begin"] by blast
  from leak(4) have f: "fst (pollLoop rt d begin (leakLabel rt w) (leakStacks rt w) (afterPoll rt w)) = Some msg"
    unfolding u .
  note ih = leak(3) [OF f]
  show ?case
  proof (cases "stackCalls ?w' = stackCalls (afterPoll rt w)")
    case True
    with ih leak(2) show ?thesis
      unfolding u by (simp add: leakLabel_def leakStacks_def)
  next
    case False
    with ih mono show ?thesis
      unfolding u by auto
  qed
qed

section \<open>The polling leak checker\<close>

lemma CheckAfterTest_pollLoop:
  "CheckAfterTest rt d w
     = pollLoop rt d (startTime rt w) [] [] (readClock rt (CloseIdleConnections w))"
  by (simp add: CheckAfterTest_def startTime_def Let_def)

lemma CloseIdleConnections_simps [simp]:
  "stackCalls (CloseIdleConnections w) = stackCalls w"
  "rangeLoops (CloseIdleConnections w) = rangeLoops w"
  "sleeps (CloseIdleConnections w) = sleeps w"
  "now (CloseIdleConnections w) = now w"
  "clockReads (CloseIdleConnections w) = clockReads w"
  "stderr (CloseIdleConnections w) = stderr w"
  by (simp_all add: CloseIdleConnections_def)

text \<open>
  C2, as amended.  For every timeout \<open>d\<close>, \<^verbatim>\<open>CheckAfterTest(d)\<close> returns success as
  soon as a poll within the window observes zero interesting stacks: every earlier poll
  has seen a leak, success is returned exactly when the last poll has seen none, and
  then without a sleep after that poll and before the window has elapsed.  It returns
  failure exactly when the window has fully elapsed and either the final poll has seen
  at least one surviving interesting stack or no poll was made at all, the time read at
  the first test of the loop condition being past the window already.
\<close>

theorem CheckAfterTest_outcome:
  assumes "CheckAfterTest rt d w = (err, w')"
  shows "(\<forall>k. stackCalls w \<le> k \<and> Suc k < stackCalls w' \<longrightarrow> survivors rt k \<noteq> [])
    \<and> (err = None \<longleftrightarrow> stackCalls w < stackCalls w' \<and> survivors rt (stackCalls w' - 1) = [])
    \<and> (err = None \<longrightarrow> sleeps w' + 1 = sleeps w + (stackCalls w' - stackCalls w)
          \<and> now w' - startTime rt w < d)
    \<and> (err \<noteq> None \<longleftrightarrow> d \<le> now w' - startTime rt w
          \<and> (stackCalls w' = stackCalls w \<or> survivors rt (stackCalls w' - 1) \<noteq> []))
    \<and> (err \<noteq> None \<longrightarrow> sleeps w' = sleeps w + (stackCalls w' - stackCalls w))"
proof -
  let ?wb = "readClock rt (CloseIdleConnections w)"
  let ?b = "startTime rt w"
  from assms have r: "pollLoop rt d ?b [] [] ?wb = (err, w')"
    by (simp add: CheckAfterTest_pollLoop)
  then have e: "fst (pollLoop rt d ?b [] [] ?wb) = err"
    and w': "snd (pollLoop rt d ?b [] [] ?wb) = w'" by simp_all
  have polls: "stackCalls w \<le> stackCalls w'"
    "\<forall>k. stackCalls w \<le> k \<and> Suc k < stackCalls w' \<longrightarrow> survivors rt k \<noteq> []"
    using pollLoop_polls [of ?wb rt d ?b "[]" "[]"] unfolding w' by simp_all
  have succ: "stackCalls w < stackCalls w' \<and> survivors rt (stackCalls w' - 1) = []
      \<and> sleeps w' + 1 = sleeps w + (stackCalls w' - stackCalls w)
      \<and> now w' - ?b < d" if "err = None"
    using pollLoop_success [of rt d ?b "[]" "[]" ?wb] that unfolding e w' by simp
  have fail: "d \<le> now w' - ?b
      \<and> sleeps w' = sleeps w + (stackCalls w' - stackCalls w)
      \<and> (stackCalls w' = stackCalls w \<or> survivors rt (stackCalls w' - 1) \<noteq> [])"
    if "err = Some msg" for msg
    using pollLoop_failure [of rt d ?b "[]" "[]" ?wb msg] that unfolding e w'
    by (simp split: if_splits)
  show ?thesis
  proof (cases err)
    case None
    with succ polls(2) show ?thesis by auto
  next
    case (Some msg)
    with fail [of msg] polls(2) show ?thesis by auto
  qed
qed



theorem CheckAfterTest_outcome_witness:
  "CheckAfterTest settlingRuntime Second freshWorld
     = (None, \<lparr>now = 100004000, clockReads = 4, stackCalls = 3, rangeLoops = 2, sleeps = 2,
          yields = 2, idleClosed = 1, stderr = []\<rparr>)
   \<and> survivors settlingRuntime 1 \<noteq> []
   \<and> survivors settlingRuntime 2 = []"
proof -
  let ?w' = "\<lparr>now = 100004000, clockReads = 4, stackCalls = 3, rangeLoops = 2, sleeps = 2,
          yields = 2, idleClosed = 1, stderr = []\<rparr>"
  have h: "CheckAfterTest settlingRuntime Second freshWorld = (None, ?w')"
    by code_simp
  from CheckAfterTest_outcome [OF h] have
    "survivors settlingRuntime (stackCalls ?w' - 1) = []"
    and "\<forall>k. stackCalls freshWorld \<le> k \<and> Suc k < stackCalls ?w'
           \<longrightarrow> survivors settlingRuntime k \<noteq> []"
    by blast+
  then have "survivors settlingRuntime 2 = []" and "survivors settlingRuntime 1 \<noteq> []"
    by (simp_all add: freshWorld_def)
  with h show ?thesis by blast
qed

text \<open>
  With the timeout 0 and no goroutine to report, the check fails although no poll was
  made and no interesting stack exists.  The same happens with a timeout of 1 ns when
  5 ns pass between \<^verbatim>\<open>time.Now()\<close> and the first \<^verbatim>\<open>time.Since(begin)\<close>.
\<close>

theorem failure_without_poll_counterexample:
  "fst (CheckAfterTest idleRuntime 0 freshWorld) = Some ''appears to have leaked :\<newline>''
   \<and> stackCalls (snd (CheckAfterTest idleRuntime 0 freshWorld)) = stackCalls freshWorld
   \<and> survivors idleRuntime 0 = []
   \<and> fst (CheckAfterTest laggingRuntime 1 freshWorld) = Some ''appears to have leaked :\<newline>''
   \<and> stackCalls (snd (CheckAfterTest laggingRuntime 1 freshWorld)) = stackCalls freshWorld
   \<and> survivors laggingRuntime 0 = []"
  by code_simp

text \<open>
  C10.  For every non-positive timeout \<open>d\<close>, \<^verbatim>\<open>CheckAfterTest(d)\<close> does not enter its
  polling loop (it takes no dump and does not sleep) and returns failure, whatever the
  goroutines are; the message has an empty badness label and an empty stack text.
\<close>

theorem nonpositive_timeout_fails:
  assumes "d \<le> 0"
  shows "CheckAfterTest rt d w
      = (Some (leakError [] []), readClock rt (readClock rt (CloseIdleConnections w)))
    \<and> leakError [] [] = ''appears to have leaked :\<newline>''
    \<and> stackCalls (snd (CheckAfterTest rt d w)) = stackCalls w
    \<and> sleeps (snd (CheckAfterTest rt d w)) = sleeps w"
proof -
  let ?wb = "readClock rt (CloseIdleConnections w)"
  have "d \<le> now (readClock rt ?wb) - startTime rt w"
    using assms by (simp add: startTime_def)
  then have "pollLoop rt d (startTime rt w) [] [] ?wb
      = (Some (leakError [] []), readClock rt ?wb)"
    by (subst pollLoop_unfold) simp
  then have "CheckAfterTest rt d w = (Some (leakError [] []), readClock rt ?wb)"
    by (simp add: CheckAfterTest_pollLoop)
  then show ?thesis by (simp add: leakError_def)
qed

theorem nonpositive_timeout_fails_witness:
  "(- 5 :: int) \<le> 0
   \<and> fst (CheckAfterTest idleRuntime (- 5) freshWorld) = Some ''appears to have leaked :\<newline>''
   \<and> stackCalls (snd (CheckAfterTest idleRuntime (- 5) freshWorld)) = 0
   \<and> survivors idleRuntime 0 = []"
proof -
  have h: "(- 5 :: int) \<le> 0" by simp
  have s: "survivors idleRuntime 0 = []" by code_simp
  from nonpositive_timeout_fails [OF h, of idleRuntime freshWorld] h s
  show ?thesis by (simp add: freshWorld_def)
qed


lemma distinct_badSubstring: "distinct (map fst badSubstring)"
  by code_simp

lemma map_of_badSubstring:
  "map_of badSubstring sub = Some what \<longleftrightarrow> (sub, what) \<in> set badSubstring"
  using distinct_badSubstring by simp

lemma badLoop_no_match:
  "\<forall>sub \<in> set keys. \<forall>what. \<not> badMatch stacks sub what \<Longrightarrow> badLoop stacks keys bad = bad"
proof (induction keys arbitrary: bad)
  case Nil
  then show ?case by simp
next
  case (Cons k keys)
  then have ih: "badLoop stacks keys b = b" for b by simp
  show ?case
  proof (cases "map_of badSubstring k")
    case None
    then show ?thesis by (simp add: ih)
  next
    case (Some what)
    then have "(k, what) \<in> set badSubstring" by (simp only: map_of_badSubstring)
    with Cons.prems have "\<not> Contains stacks k" by (auto simp: badMatch_def)
    with Some show ?thesis by (simp add: ih)
  qed
qed

lemma badLoop_match:
  "\<exists>sub \<in> set keys. \<exists>what. badMatch stacks sub what \<Longrightarrow>
   \<exists>sub \<in> set keys. badMatch stacks sub (badLoop stacks keys bad)"
proof (induction keys arbitrary: bad)
  case Nil
  then show ?case by simp
next
  case (Cons k keys)
  show ?case
  proof (cases "\<exists>sub \<in> set keys. \<exists>what. badMatch stacks sub what")
    case True
    from Cons.IH [OF True] show ?thesis
      by (cases "map_of badSubstring k") auto
  next
    case False
    with Cons.prems obtain what where k: "badMatch stacks k what" by auto
    then have m: "map_of badSubstring k = Some what" "Contains stacks k"
      by (simp_all add: badMatch_def map_of_badSubstring)
    from False have "badLoop stacks keys what = what"
      by (intro badLoop_no_match) blast
    with m k show ?thesis by simp
  qed
qed

lemma Contains_Join:
  "t \<in> set ts \<Longrightarrow> Contains t sub \<Longrightarrow> Contains (Join ts sep) sub"
proof (induction ts sep rule: Join.induct)
  case (1 sep)
  then show ?case by simp
next
  case (2 x sep)
  then show ?case by simp
next
  case (3 x y ys sep)
  show ?case
  proof (cases "t = x")
    case True
    with 3(3) obtain u v where "x = u @ sub @ v" by (auto simp: Contains_iff)
    then have "Join (x # y # ys) sep = u @ sub @ (v @ sep @ Join (y # ys) sep)" by simp
    then show ?thesis by (simp only: Contains_appendI)
  next
    case False
    with 3 have "Contains (Join (y # ys) sep) sub" by simp
    then obtain u v where "Join (y # ys) sep = u @ sub @ v" by (auto simp: Contains_iff)
    then have "Join (x # y # ys) sep = (x @ sep @ u) @ sub @ v" by simp
    then show ?thesis by (simp only: Contains_appendI)
  qed
qed

text \<open>
  C3, as amended.  When \<^verbatim>\<open>CheckAfterTest(d)\<close> returns failure after at least one poll,
  the message is \<^verbatim>\<open>appears to have leaked\<close>, the label remembered from the last poll,
  a colon and a line feed, and the full concatenated stack text of the last poll.  The
  label is that of a Badness Table entry whose substring the stack text contains, if
  there is one, and empty otherwise.  In particular, if a trace containing
  \<^verbatim>\<open>).writeLoop(\<close> is among the survivors of the last poll and every Badness Table
  entry whose substring the stack text contains has the label \<^verbatim>\<open>a Transport\<close>, the
  message contains \<^verbatim>\<open>a Transport\<close>.
\<close>

theorem failure_message:
  assumes "CheckAfterTest rt d w = (Some msg, w')"
    and "stackCalls w < stackCalls w'"
    and "visitsEachKeyOnce rt"
  shows "\<exists>bad stacks.
      msg = ''appears to have leaked '' @ bad @ '':\<newline>'' @ stacks
    \<and> stacks = Join (survivors rt (stackCalls w' - 1)) ''\<newline>\<newline>''
    \<and> survivors rt (stackCalls w' - 1) \<noteq> []
    \<and> (if \<exists>sub what. badMatch stacks sub what
        then \<exists>sub. badMatch stacks sub bad else bad = [])
    \<and> ((\<exists>t \<in> set (survivors rt (stackCalls w' - 1)). Contains t '').writeLoop('')
         \<and> (\<forall>sub what. badMatch stacks sub what \<longrightarrow> what = ''a Transport'')
        \<longrightarrow> Contains msg ''a Transport'')"
proof -
  let ?wb = "readClock rt (CloseIdleConnections w)"
  let ?b = "startTime rt w"
  let ?gs = "survivors rt (stackCalls w' - 1)"
  let ?stacks = "Join ?gs ''\<newline>\<newline>''"
  let ?keys = "rangeOrder rt (rangeLoops w' - 1) (map fst badSubstring)"
  let ?bad = "badLoop ?stacks ?keys []"
  from assms(1) have r: "pollLoop rt d ?b [] [] ?wb = (Some msg, w')"
    by (simp add: CheckAfterTest_pollLoop)
  then have e: "fst (pollLoop rt d ?b [] [] ?wb) = Some msg"
    and w': "snd (pollLoop rt d ?b [] [] ?wb) = w'" by simp_all
  from pollLoop_failure [OF e] assms(2)
  have gs: "?gs \<noteq> []" and msg: "msg = leakError ?bad ?stacks"
    unfolding w' by simp_all
  from assms(3) have "mset ?keys = mset (map fst badSubstring)"
    by (simp add: visitsEachKeyOnce_def)
  then have keys: "set ?keys = fst ` set badSubstring"
    by (metis set_mset_mset set_map)
  have all: "(\<exists>sub \<in> set ?keys. \<exists>what. badMatch ?stacks sub what)
      \<longleftrightarrow> (\<exists>sub what. badMatch ?stacks sub what)"
    unfolding keys by (force simp: badMatch_def)
  have label: "if \<exists>sub what. badMatch ?stacks sub what
        then \<exists>sub. badMatch ?stacks sub ?bad else ?bad = []"
  proof (cases "\<exists>sub what. badMatch ?stacks sub what")
    case True
    then have "\<exists>sub \<in> set ?keys. \<exists>what. badMatch ?stacks sub what" by (simp only: all)
    from badLoop_match [OF this, of "[]"] True show ?thesis by auto
  next
    case False
    then have "?bad = []" by (intro badLoop_no_match) blast
    with False show ?thesis by simp
  qed
  have transport: "Contains msg ''a Transport''"
    if t: "\<exists>t \<in> set ?gs. Contains t '').writeLoop(''"
      and only: "\<forall>sub what. badMatch ?stacks sub what \<longrightarrow> what = ''a Transport''"
  proof -
    from t have "Contains ?stacks '').writeLoop(''" by (auto intro: Contains_Join)
    then have "badMatch ?stacks '').writeLoop('' ''a Transport''"
      by (simp add: badMatch_def badSubstring_def)
    then have "\<exists>sub what. badMatch ?stacks sub what" by blast
    with label obtain sub where "badMatch ?stacks sub ?bad" by auto
    with only have "?bad = ''a Transport''" by blast
    with msg have "msg = ''appears to have leaked '' @ ''a Transport'' @ ('':\<newline>'' @ ?stacks)"
      by (simp add: leakError_def)
    then show ?thesis by (simp only: Contains_appendI)
  qed
  from msg have "msg = ''appears to have leaked '' @ ?bad @ '':\<newline>'' @ ?stacks"
    by (simp add: leakError_def)
  with gs label transport show ?thesis by blast
qed

theorem failure_message_witness:
  "CheckAfterTest transportRuntime (10 * Millisecond) freshWorld
     = (Some ''appears to have leaked a Transport:\<newline>net/http.(*persistConn).writeLoop(0xc0001)'',
        \<lparr>now = 50000000, clockReads = 3, stackCalls = 1, rangeLoops = 1, sleeps = 1,
           yields = 1, idleClosed = 1, stderr = []\<rparr>)
   \<and> visitsEachKeyOnce transportRuntime
   \<and> (\<exists>bad. ''appears to have leaked a Transport:\<newline>net/http.(*persistConn).writeLoop(0xc0001)''
        = ''appears to have leaked '' @ bad @ '':\<newline>''
            @ Join (survivors transportRuntime 0) ''\<newline>\<newline>'')"
proof -
  let ?msg = "''appears to have leaked a Transport:\<newline>net/http.(*persistConn).writeLoop(0xc0001)''"
  let ?w' = "\<lparr>now = 50000000, clockReads = 3, stackCalls = 1, rangeLoops = 1, sleeps = 1,
           yields = 1, idleClosed = 1, stderr = []\<rparr>"
  have h1: "CheckAfterTest transportRuntime (10 * Millisecond) freshWorld = (Some ?msg, ?w')"
    by code_simp
  have h2: "stackCalls freshWorld < stackCalls ?w'" by (simp add: freshWorld_def)
  have h3: "visitsEachKeyOnce transportRuntime"
    by (simp add: visitsEachKeyOnce_def transportRuntime_def)
  from failure_message [OF h1 h2 h3] have
    "\<exists>bad. ?msg = ''appears to have leaked '' @ bad @ '':\<newline>''
        @ Join (survivors transportRuntime 0) ''\<newline>\<newline>''"
    by auto
  with h1 h3 show ?thesis by blast
qed

text \<open>
  A trace containing \<^verbatim>\<open>).writeLoop(\<close> stays past the timeout of 100 ms, through both
  polls, together with a trace containing \<^verbatim>\<open>timeoutHandler\<close>; the loop over the table
  visits the entry of the latter after that of the former, and the message does not
  contain \<^verbatim>\<open>a Transport\<close>.
\<close>

theorem other_label_counterexample:
  "survivors twoLeaksRuntime 0
     = [''net/http.(*persistConn).writeLoop(0xc0001)'',
        ''net/http.(*timeoutHandler).ServeHTTP(0xc0002)'']
   \<and> survivors twoLeaksRuntime 1 = survivors twoLeaksRuntime 0
   \<and> Contains ''net/http.(*persistConn).writeLoop(0xc0001)'' '').writeLoop(''
   \<and> CheckAfterTest twoLeaksRuntime (100 * Millisecond) freshWorld
     = (Some ''appears to have leaked a TimeoutHandler:\<newline>net/http.(*persistConn).writeLoop(0xc0001)\<newline>\<newline>net/http.(*timeoutHandler).ServeHTTP(0xc0002)'',
        \<lparr>now = 100000000, clockReads = 4, stackCalls = 2, rangeLoops = 2, sleeps = 2,
           yields = 2, idleClosed = 1, stderr = []\<rparr>)
   \<and> \<not> Contains ''appears to have leaked a TimeoutHandler:\<newline>net/http.(*persistConn).writeLoop(0xc0001)\<newline>\<newline>net/http.(*timeoutHandler).ServeHTTP(0xc0002)'' ''a Transport''"
  by code_simp

section \<open>The immediate leak reporter\<close>

text \<open>The verb \<^verbatim>\<open>%d\<close> gives the decimal digits of the count.\<close>

lemma digit_value: "n < 10 \<Longrightarrow> of_char (digit n) - 48 = n"
  by (simp add: digit_def)

lemma decimalValue_snoc: "decimalValue (s @ [c]) = 10 * decimalValue s + (of_char c - 48)"
  by (simp add: decimalValue_def)

lemma decimalValue_formatInt: "decimalValue (formatInt n) = n"
proof (induction n rule: formatInt.induct)
  case (1 n)
  show ?case
  proof (cases "n < 10")
    case True
    then show ?thesis by (simp add: decimalValue_def digit_value)
  next
    case False
    then have "decimalValue (formatInt n)
        = 10 * decimalValue (formatInt (n div 10)) + (of_char (digit (n mod 10)) - 48)"
      by (subst formatInt.simps) (simp add: decimalValue_snoc)
    also have "\<dots> = 10 * (n div 10) + n mod 10"
      using False 1 by (simp add: digit_value)
    finally show ?thesis by simp
  qed
qed

lemma interestingGoroutines_eq:
  "interestingGoroutines rt w = (survivors rt (stackCalls w), w\<lparr>stackCalls := stackCalls w + 1\<rparr>)"
  by (simp add: interestingGoroutines_def Stack_def survivors_def)

lemma printLoop_stderr:
  "stderr (printLoop m keys w)
     = stderr w @ concat (map (\<lambda>k. case map_of m k of None \<Rightarrow> [] | Some c \<Rightarrow> instancesOf c k) keys)"
  by (induction keys arbitrary: w) (auto simp: Fprint_def split: option.splits)

lemma map_of_countLoop:
  "k \<in> normalize ` set gs \<Longrightarrow> map_of (countLoop gs []) k = Some (occurrences gs k)"
proof -
  assume "k \<in> normalize ` set gs"
  then have "k \<in> fst ` set (countLoop gs [])" by (simp add: keys_countLoop)
  then obtain n where n: "map_of (countLoop gs []) k = Some n"
    by (metis domIff dom_map_of_conv_image_fst not_Some_eq)
  then have "mapGet (countLoop gs []) k = n" by (simp add: mapGet_def)
  then have "n = occurrences gs k" by (simp add: mapGet_countLoop occurrences_def)
  with n show ?thesis by simp
qed

text \<open>
  C6.  \<^verbatim>\<open>CheckLeakedGoroutine\<close> returns false and writes nothing to the diagnostic
  stream when the classified surviving set is empty.  Otherwise it returns true and
  writes the header line followed, for each distinct normalized signature once, by the
  line \<^verbatim>\<open><count> instances of:\<close> with the number of surviving traces of that signature
  and by the full text of the signature.
\<close>

theorem report_leaks:
  assumes "CheckLeakedGoroutine rt w = (leaked, w')"
  shows "(survivors rt (stackCalls w) = [] \<longrightarrow> \<not> leaked \<and> stderr w' = stderr w)
    \<and> (survivors rt (stackCalls w) \<noteq> [] \<longrightarrow> leaked)
    \<and> (survivors rt (stackCalls w) \<noteq> [] \<and> visitsEachKeyOnce rt \<longrightarrow>
         (\<exists>sigs. distinct sigs
            \<and> set sigs = normalize ` set (survivors rt (stackCalls w))
            \<and> stderr w' = stderr w @ reportHeader
                 @ concat (map (\<lambda>sig.
                      instancesOf (occurrences (survivors rt (stackCalls w)) sig) sig) sigs)))"
proof (cases "survivors rt (stackCalls w) = []")
  case True
  with assms show ?thesis
    by (auto simp: CheckLeakedGoroutine_def interestingGoroutines_eq)
next
  case False
  let ?gs = "survivors rt (stackCalls w)"
  let ?m = "countLoop ?gs []"
  let ?keys = "rangeOrder rt (rangeLoops w) (map fst ?m)"
  let ?w3 = "(Fprint reportHeader (w\<lparr>stackCalls := stackCalls w + 1\<rparr>))\<lparr>rangeLoops := rangeLoops w + 1\<rparr>"
  from assms False have l: "leaked" and w': "w' = printLoop ?m ?keys ?w3"
    by (auto simp: CheckLeakedGoroutine_def interestingGoroutines_eq rangeKeys_def Let_def Fprint_def)
  have out: "stderr w' = stderr w @ reportHeader
      @ concat (map (\<lambda>k. case map_of ?m k of None \<Rightarrow> [] | Some c \<Rightarrow> instancesOf c k) ?keys)"
    unfolding w' by (simp add: printLoop_stderr Fprint_def)
  have "\<exists>sigs. distinct sigs \<and> set sigs = normalize ` set ?gs
      \<and> stderr w' = stderr w @ reportHeader
           @ concat (map (\<lambda>sig. instancesOf (occurrences ?gs sig) sig) sigs)"
    if v: "visitsEachKeyOnce rt"
  proof -
    from v have ms: "mset ?keys = mset (map fst ?m)" by (simp add: visitsEachKeyOnce_def)
    have "distinct (map fst ?m)" by (simp add: distinct_countLoop)
    with ms have d: "distinct ?keys" by (metis mset_eq_imp_distinct_iff)
    from ms have "set ?keys = set (map fst ?m)" by (metis set_mset_mset)
    then have s: "set ?keys = normalize ` set ?gs" by (simp add: keys_countLoop)
    have "map (\<lambda>k. case map_of ?m k of None \<Rightarrow> [] | Some c \<Rightarrow> instancesOf c k) ?keys
        = map (\<lambda>sig. instancesOf (occurrences ?gs sig) sig) ?keys"
      using s by (intro map_cong) (auto simp: map_of_countLoop)
    with out d s show ?thesis by metis
  qed
  with False l show ?thesis by blast
qed

theorem report_leaks_witness:
  "CheckLeakedGoroutine twinRuntime freshWorld
     = (True, \<lparr>now = 0, clockReads = 0, stackCalls = 1, rangeLoops = 1, sleeps = 0, yields = 0,
          idleClosed = 0,
          stderr = ''Unexpected goroutines running after all test(s).\<newline>2 instances of:\<newline>main.worker(...)\<newline>''\<rparr>)
   \<and> CheckLeakedGoroutine idleRuntime freshWorld
     = (False, \<lparr>now = 0, clockReads = 0, stackCalls = 1, rangeLoops = 0, sleeps = 0, yields = 0,
          idleClosed = 0, stderr = []\<rparr>)
   \<and> survivors twinRuntime 0 \<noteq> []
   \<and> survivors idleRuntime 0 = []
   \<and> visitsEachKeyOnce twinRuntime"
proof -
  let ?w1 = "\<lparr>now = 0, clockReads = 0, stackCalls = 1, rangeLoops = 1, sleeps = 0, yields = 0,
          idleClosed = 0,
          stderr = ''Unexpected goroutines running after all test(s).\<newline>2 instances of:\<newline>main.worker(...)\<newline>''\<rparr>"
  let ?w2 = "\<lparr>now = 0, clockReads = 0, stackCalls = 1, rangeLoops = 0, sleeps = 0, yields = 0,
          idleClosed = 0, stderr = []\<rparr>"
  have h1: "CheckLeakedGoroutine twinRuntime freshWorld = (True, ?w1)" by code_simp
  have h2: "CheckLeakedGoroutine idleRuntime freshWorld = (False, ?w2)" by code_simp
  have v: "visitsEachKeyOnce twinRuntime"
    by (simp add: visitsEachKeyOnce_def twinRuntime_def)
  have s2: "survivors idleRuntime 0 = []" by code_simp
  from report_leaks [OF h1] have "survivors twinRuntime (stackCalls freshWorld) \<noteq> []"
    by auto
  then have s1: "survivors twinRuntime 0 \<noteq> []" by (simp add: freshWorld_def)
  from h1 h2 s1 s2 v show ?thesis by blast
qed

section \<open>Test lifecycle integration\<close>

lemma short_check_fails:
  assumes "survivors rt (stackCalls w) \<noteq> []" and "d \<le> 50 * Millisecond"
  shows "\<exists>err. fst (CheckAfterTest rt d w) = Some err"
proof -
  let ?wb = "readClock rt (CloseIdleConnections w)"
  let ?b = "startTime rt w"
  have b: "?b = now ?wb" by (simp add: startTime_def)
  have late: "d \<le> now (readClock rt (afterPoll rt ?wb)) - ?b"
    using assms(2) unfolding b by simp
  have s: "survivors rt (stackCalls ?wb) \<noteq> []" using assms(1) by simp
  have "\<exists>err. fst (pollLoop rt d ?b [] [] ?wb) = Some err"
  proof (cases "now (readClock rt ?wb) - ?b < d")
    case False
    then show ?thesis by (subst pollLoop_unfold) simp
  next
    case True
    then have "pollLoop rt d ?b [] [] ?wb
        = pollLoop rt d ?b (leakLabel rt ?wb) (leakStacks rt ?wb) (afterPoll rt ?wb)"
      using s by (subst pollLoop_unfold) simp
    also have "\<dots> = (Some (leakError (leakLabel rt ?wb) (leakStacks rt ?wb)),
        readClock rt (afterPoll rt ?wb))"
      using late by (subst pollLoop_unfold) simp
    finally show ?thesis by simp
  qed
  then show ?thesis by (simp add: CheckAfterTest_pollLoop)
qed

text \<open>
  C7.  If a leaked task is there when \<^verbatim>\<open>RegisterLeakDetection\<close> runs and stays through
  the window of 10 ms (which has room for one poll), the test is skipped with a
  diagnostic that carries the error of the check; it is not marked as failed, and no
  cleanup is registered.
\<close>

theorem register_skips_on_leak:
  assumes "survivors rt (stackCalls w) \<noteq> []"
    and "RegisterLeakDetection rt t w = (t', w')"
  shows "skipped t' \<and> failed t' = failed t \<and> cleanups t' = cleanups t
    \<and> (\<exists>err. fst (CheckAfterTest rt (10 * Millisecond) w) = Some err
          \<and> logs t' = logs t @ [''Found leaked goroutined BEFORE test '' @ err @ ''\<newline>''])"
proof -
  have "10 * Millisecond \<le> 50 * Millisecond" by (simp add: Millisecond_def)
  with assms(1) obtain err where e: "fst (CheckAfterTest rt (10 * Millisecond) w) = Some err"
    using short_check_fails by blast
  then obtain w1 where "CheckAfterTest rt (10 * Millisecond) w = (Some err, w1)"
    by (cases "CheckAfterTest rt (10 * Millisecond) w") simp
  with assms(2) have "t' = Skip [''Found leaked goroutined BEFORE test'', err] t"
    by (simp add: RegisterLeakDetection_def)
  with e show ?thesis by (simp add: Skip_def)
qed

theorem register_skips_on_leak_witness:
  "survivors transportRuntime 0 \<noteq> []
   \<and> RegisterLeakDetection transportRuntime newTest freshWorld
     = (\<lparr>failed = False, skipped = True,
          logs = [''Found leaked goroutined BEFORE test appears to have leaked a Transport:\<newline>net/http.(*persistConn).writeLoop(0xc0001)\<newline>''],
          cleanups = []\<rparr>,
        \<lparr>now = 50000000, clockReads = 3, stackCalls = 1, rangeLoops = 1, sleeps = 1,
          yields = 1, idleClosed = 1, stderr = []\<rparr>)"
proof -
  let ?t' = "\<lparr>failed = False, skipped = True,
          logs = [''Found leaked goroutined BEFORE test appears to have leaked a Transport:\<newline>net/http.(*persistConn).writeLoop(0xc0001)\<newline>''],
          cleanups = []\<rparr>"
  let ?w' = "\<lparr>now = 50000000, clockReads = 3, stackCalls = 1, rangeLoops = 1, sleeps = 1,
          yields = 1, idleClosed = 1, stderr = []\<rparr>"
  have h1: "survivors transportRuntime (stackCalls freshWorld) \<noteq> []" by code_simp
  have h2: "RegisterLeakDetection transportRuntime newTest freshWorld = (?t', ?w')"
    by code_simp
  from register_skips_on_leak [OF h1 h2] have "skipped ?t'" by blast
  with h1 h2 show ?thesis by (simp add: freshWorld_def)
qed

text \<open>
  C8.  If the test has already failed when \<^verbatim>\<open>afterTest\<close> runs, the leak check is not
  performed: the state of the process is untouched (no dump is taken, nothing sleeps)
  and the test is as it was (no further error), whatever goroutines there are.
\<close>

theorem afterTest_failed_no_check:
  assumes "failed t"
  shows "afterTest rt t w = (t, w)"
  using assms by (simp add: afterTest_def)

theorem afterTest_failed_no_check_witness:
  "failed failedTest
   \<and> afterTest twoLeaksRuntime failedTest freshWorld = (failedTest, freshWorld)
   \<and> survivors twoLeaksRuntime 0 \<noteq> []"
proof -
  have h: "failed failedTest" by (simp add: failedTest_def)
  have s: "survivors twoLeaksRuntime 0 \<noteq> []" by code_simp
  from afterTest_failed_no_check [OF h, of twoLeaksRuntime freshWorld] h s
  show ?thesis by simp
qed

lemma CheckLeakedGoroutine_fst:
  "fst (CheckLeakedGoroutine rt w) \<longleftrightarrow> survivors rt (stackCalls w) \<noteq> []"
  by (simp add: CheckLeakedGoroutine_def interestingGoroutines_eq Let_def)

text \<open>
  C9.  \<^verbatim>\<open>MustTestMainWithLeakDetection\<close> exits with the status of the test framework
  when that is not 0, the Reporter not being run and the state of the process left as
  it was; when the suite has passed, it exits with 1 if the Reporter finds a leak, that
  is a surviving stack in the dump it takes, and with 0 if not.
\<close>

theorem exit_status:
  "(v \<noteq> 0 \<longrightarrow> MustTestMainWithLeakDetection rt v w = (v, w))
   \<and> (v = 0 \<longrightarrow> fst (MustTestMainWithLeakDetection rt v w)
         = (if fst (CheckLeakedGoroutine rt (beforeReport rt w)) then 1 else 0))
   \<and> (fst (CheckLeakedGoroutine rt (beforeReport rt w))
         \<longleftrightarrow> survivors rt (stackCalls (beforeReport rt w)) \<noteq> [])"
  by (simp add: MustTestMainWithLeakDetection_def MustCheckLeakedGoroutine_def
      beforeReport_def Let_def CheckLeakedGoroutine_fst)

theorem exit_status_witness:
  "MustTestMainWithLeakDetection lateLeakRuntime 3 freshWorld = (3, freshWorld)
   \<and> fst (MustTestMainWithLeakDetection lateLeakRuntime 0 freshWorld) = 1
   \<and> fst (MustTestMainWithLeakDetection idleRuntime 0 freshWorld) = 0
   \<and> stackCalls (beforeReport lateLeakRuntime freshWorld) = 1
   \<and> survivors lateLeakRuntime 1 \<noteq> []
   \<and> survivors idleRuntime 1 = []"
proof -
  have b1: "stackCalls (beforeReport lateLeakRuntime freshWorld) = 1" by code_simp
  have b2: "stackCalls (beforeReport idleRuntime freshWorld) = 1" by code_simp
  have s1: "survivors lateLeakRuntime 1 \<noteq> []" by code_simp
  have s2: "survivors idleRuntime 1 = []" by code_simp
  from exit_status [of 3 lateLeakRuntime freshWorld]
  have e3: "MustTestMainWithLeakDetection lateLeakRuntime 3 freshWorld = (3, freshWorld)"
    by simp
  from exit_status [of 0 lateLeakRuntime freshWorld] b1 s1
  have e1: "fst (MustTestMainWithLeakDetection lateLeakRuntime 0 freshWorld) = 1"
    by simp
  from exit_status [of 0 idleRuntime freshWorld] b2 s2
  have e0: "fst (MustTestMainWithLeakDetection idleRuntime 0 freshWorld) = 0"
    by simp
  from e3 e1 e0 b1 s1 s2 show ?thesis by blast
qed

end
